theory Spec2Isabelle
  imports
    Main
    "HOL-Library.Word"
    "HOL-Library.Char_ord"
    "HOL-Library.List_Lexorder"
    "HOL-Library.Product_Lexorder"
    "HOL-Library.Multiset"
begin

unbundle bit_operations_syntax

section \<open>Data model\<close>

text \<open>
  The scheduler core of \<^verbatim>\<open>frontend/src/App.tsx\<close>: the seeded generator
  (\<^verbatim>\<open>hash32\<close>, \<^verbatim>\<open>mulberry32\<close>, \<^verbatim>\<open>stableShuffle\<close>), the tie policy
  (\<^verbatim>\<open>resolveTiePreferred\<close>), the scheduler (\<^verbatim>\<open>nextPair\<close>), the reconciliation of
  two vote logs (\<^verbatim>\<open>mergeHistory\<close>) and the vote identifier (\<^verbatim>\<open>makeVoteId\<close>).

  Conventions of the embedding.
  \<^item> A JavaScript string is a \<^typ>\<open>string\<close>: a list of code units, each below 256.
    \<^verbatim>\<open>charCodeAt\<close> is \<^term>\<open>of_char\<close>, and \<^verbatim>\<open><\<close> on strings is the lexicographic
    order of the code units.
  \<^item> A history row is a record of the fields the core reads. A field is optional
    exactly where the source guards it with \<^verbatim>\<open>??\<close> (absent, \<^verbatim>\<open>null\<close> or
    \<^verbatim>\<open>undefined\<close> is \<^term>\<open>None\<close>); the two method ids are always strings.
  \<^item> A trial number is an integer (\<^typ>\<open>int\<close>), rendered in decimal by a template
    string, as JavaScript does for every integer of magnitude below \<open>10\<^sup>2\<^sup>1\<close>.
  \<^item> \<^verbatim>\<open>null\<close> as a result is \<^term>\<open>None\<close>; a pair \<^verbatim>\<open>[a, b]\<close> is \<^term>\<open>Some (a, b)\<close>.
\<close>

record row =
  participant_id :: "string option"
  component :: "string option"
  trial_id :: "int option"
  left_method_id :: string
  right_method_id :: string
  preferred :: "string option"
  resolved_preferred :: "string option"

datatype side = Left | Right

type_synonym u32 = "32 word"

subsection \<open>Numbers in template strings\<close>

definition digit_char :: "nat \<Rightarrow> char" where
  "digit_char d = char_of (48 + d)"

function string_of_nat :: "nat \<Rightarrow> string" where
  "string_of_nat n =
     (if n < 10 then [digit_char n]
      else string_of_nat (n div 10) @ [digit_char (n mod 10)])"
  by pat_completeness auto
termination
  by (relation "measure (\<lambda>n. n)") auto

declare string_of_nat.simps [simp del]

definition string_of_int :: "int \<Rightarrow> string" where
  "string_of_int i =
     (if i < 0 then CHR ''-'' # string_of_nat (nat (- i)) else string_of_nat (nat i))"

text \<open>\<^verbatim>\<open>x ?? ""\<close> on an optional string.\<close>

definition or_empty :: "string option \<Rightarrow> string" where
  "or_empty v = (case v of None \<Rightarrow> [] | Some s \<Rightarrow> s)"

section \<open>History reconciliation\<close>

text \<open>
  \<^verbatim>\<open>
  function historyKey(r: any) {
    return `${r?.participant_id ?? ""}::${r?.component ?? ""}::${r?.trial_id ?? ""}`;
  }
  \<close>
\<close>

definition historyKey :: "row \<Rightarrow> string" where
  "historyKey r =
     or_empty (participant_id r) @ ''::'' @ or_empty (component r) @ ''::'' @
     (case trial_id r of None \<Rightarrow> [] | Some t \<Rightarrow> string_of_int t)"

text \<open>
  A JavaScript \<^verbatim>\<open>Map\<close> keeps its entries in the order in which the keys were first
  inserted; \<^verbatim>\<open>set\<close> on a key that is present replaces the value in place. It is an
  association list here, since \<^verbatim>\<open>Array.from(m.values())\<close> reads that order.
\<close>

type_synonym row_map = "(string \<times> row) list"

definition map_has :: "row_map \<Rightarrow> string \<Rightarrow> bool" where
  "map_has m k = (k \<in> set (map fst m))"

fun map_set :: "string \<Rightarrow> row \<Rightarrow> row_map \<Rightarrow> row_map" where
  "map_set k v [] = [(k, v)]"
| "map_set k v (p # ps) = (if fst p = k then (k, v) # ps else p # map_set k v ps)"

definition map_values :: "row_map \<Rightarrow> row list" where
  "map_values m = map snd m"

text \<open>
  The comparator of the final \<^verbatim>\<open>sort\<close>:
  \<^verbatim>\<open>
  (a, b) => {
    const ca = String(a?.component ?? "");
    const cb = String(b?.component ?? "");
    if (ca < cb) return -1;
    if (ca > cb) return 1;
    return Number(a?.trial_id ?? 0) - Number(b?.trial_id ?? 0);
  }
  \<close>
\<close>

definition trial_or_zero :: "row \<Rightarrow> int" where
  "trial_or_zero r = (case trial_id r of None \<Rightarrow> 0 | Some t \<Rightarrow> t)"

definition compareRows :: "row \<Rightarrow> row \<Rightarrow> int" where
  "compareRows a b =
     (let ca = or_empty (component a); cb = or_empty (component b)
      in if ca < cb then - 1
         else if ca > cb then 1
         else trial_or_zero a - trial_or_zero b)"

text \<open>
  \<^verbatim>\<open>Array.prototype.sort\<close> is stable, and \<open>compareRows\<close> is the three-way comparison
  of the key below (lemma \<open>compareRows_sortKey\<close>), so the sorted array is the stable
  sort by that key, which \<^const>\<open>sort_key\<close> computes.
\<close>

definition sortKey :: "row \<Rightarrow> string \<times> int" where
  "sortKey r = (or_empty (component r), trial_or_zero r)"

text \<open>
  \<^verbatim>\<open>
  function mergeHistory(localRows: any[], remoteRows: any[]) {
    const m = new Map<string, any>();
    for (const r of remoteRows || []) m.set(historyKey(r), r);
    for (const r of localRows || []) {
      const k = historyKey(r);
      if (!m.has(k)) m.set(k, r);
    }
    return Array.from(m.values()).sort(...);
  }
  \<close>
\<close>

definition add_remote :: "row_map \<Rightarrow> row \<Rightarrow> row_map" where
  "add_remote m r = map_set (historyKey r) r m"

definition add_local :: "row_map \<Rightarrow> row \<Rightarrow> row_map" where
  "add_local m r = (let k = historyKey r in if \<not> map_has m k then map_set k r m else m)"

definition mergeHistory :: "row list \<Rightarrow> row list \<Rightarrow> row list" where
  "mergeHistory localRows remoteRows =
     (let m = foldl add_remote [] remoteRows;
          m = foldl add_local m localRows
      in sort_key sortKey (map_values m))"

section \<open>Vote identifier\<close>

text \<open>
  \<^verbatim>\<open>
  function makeVoteId(pid: string, component: string, trialId: number) {
    const c = String(component || "")
      .trim()
      .replace(/\s+/g, "_")
      .replace(/[^a-zA-Z0-9_\-]/g, "");
    return `${pid}__${c}__${trialId}`;
  }
  \<close>
  Among the code units below 256, \<^verbatim>\<open>trim\<close> and \<^verbatim>\<open>\s\<close> take as white space the tab,
  the line feed, the vertical tab, the form feed, the carriage return, the space and the
  no-break space.
\<close>

definition is_space :: "char \<Rightarrow> bool" where
  "is_space c = ((of_char c :: nat) \<in> {9, 10, 11, 12, 13, 32, 160})"

definition trim :: "string \<Rightarrow> string" where
  "trim s = rev (dropWhile is_space (rev (dropWhile is_space s)))"

function replace_spaces :: "string \<Rightarrow> string" where
  "replace_spaces [] = []"
| "replace_spaces (c # s) =
     (if is_space c then CHR ''_'' # replace_spaces (dropWhile is_space s)
      else c # replace_spaces s)"
  by pat_completeness auto
termination
  by (relation "measure length") (auto simp: length_dropWhile_le less_Suc_eq_le)

definition id_char :: "char \<Rightarrow> bool" where
  "id_char c =
     (let n = (of_char c :: nat)
      in (97 \<le> n \<and> n \<le> 122) \<or> (65 \<le> n \<and> n \<le> 90) \<or> (48 \<le> n \<and> n \<le> 57) \<or>
         c = CHR ''_'' \<or> c = CHR ''-'')"

definition sanitize :: "string \<Rightarrow> string" where
  "sanitize cname = filter id_char (replace_spaces (trim cname))"

definition makeVoteId :: "string \<Rightarrow> string \<Rightarrow> int \<Rightarrow> string" where
  "makeVoteId pid cname trialId =
     (let c = sanitize cname
      in pid @ ''__'' @ c @ ''__'' @ string_of_int trialId)"

section \<open>Seeded generator\<close>

text \<open>
  \<^verbatim>\<open>
  function hash32(s: string) {
    let h = 2166136261;
    for (let i = 0; i < s.length; i++) {
      h ^= s.charCodeAt(i);
      h = Math.imul(h, 16777619);
    }
    return h >>> 0;
  }
  \<close>
  \<^verbatim>\<open>^=\<close> and \<^verbatim>\<open>Math.imul\<close> work on the low 32 bits, and \<^verbatim>\<open>>>> 0\<close> reads them as
  unsigned: the accumulator is a 32-bit word.
\<close>

definition charCode :: "char \<Rightarrow> u32" where
  "charCode c = of_nat (of_char c)"

fun hash32_loop :: "u32 \<Rightarrow> string \<Rightarrow> u32" where
  "hash32_loop h [] = h"
| "hash32_loop h (c # s) = hash32_loop ((h XOR charCode c) * 16777619) s"

definition hash32 :: "string \<Rightarrow> u32" where
  "hash32 s = hash32_loop 2166136261 s"

text \<open>
  \<^verbatim>\<open>
  function mulberry32(seed: number) {
    return function () {
      let t = (seed += 0x6d2b79f5);
      t = Math.imul(t ^ (t >>> 15), t | 1);
      t ^= t + Math.imul(t ^ (t >>> 7), t | 61);
      return ((t ^ (t >>> 14)) >>> 0) / 4294967296;
    };
  }
  \<close>
  The closure's only state is \<^verbatim>\<open>seed\<close>. One call of the returned function is
  \<open>mulberry32\<close> below, from the seed before the call to the drawn value and the seed
  after it. \<^verbatim>\<open>seed += 0x6d2b79f5\<close> and \<^verbatim>\<open>t + Math.imul(...)\<close> add doubles, exactly
  (the seed stays below \<open>2\<^sup>5\<^sup>3\<close> for the first four million draws of a generator), and
  every other use of \<^verbatim>\<open>seed\<close> and \<^verbatim>\<open>t\<close> is through a 32-bit operator, so only
  their low 32 bits matter and both are words. The drawn number is \<open>k / 2\<^sup>3\<^sup>2\<close> for the
  32-bit \<open>k\<close> returned here; the division is exact in a double.
\<close>

definition mulberry32 :: "u32 \<Rightarrow> u32 \<times> u32" where
  "mulberry32 seed =
     (let seed' = seed + 0x6d2b79f5;
          t = seed';
          t = (t XOR drop_bit 15 t) * (t OR 1);
          t = t XOR (t + (t XOR drop_bit 7 t) * (t OR 61))
      in (t XOR drop_bit 14 t, seed'))"

text \<open>
  \<^verbatim>\<open>Math.floor(rnd() * n)\<close> for the drawn \<open>k / 2\<^sup>3\<^sup>2\<close>: the product is exact in a
  double as long as \<open>k * n < 2\<^sup>5\<^sup>3\<close>, which holds for every \<open>n \<le> 2\<^sup>2\<^sup>1\<close>.
\<close>

definition floor_scaled :: "u32 \<Rightarrow> nat \<Rightarrow> nat" where
  "floor_scaled k n = (unat k * n) div 2 ^ 32"

text \<open>\<^verbatim>\<open>rnd() < 0.5\<close>\<close>

definition below_half :: "u32 \<Rightarrow> bool" where
  "below_half k = (unat k < 2 ^ 31)"

text \<open>
  \<^verbatim>\<open>
  function stableShuffle<T>(arr: T[], seedStr: string) {
    const a = [...arr];
    const rnd = mulberry32(hash32(seedStr));
    for (let i = a.length - 1; i > 0; i--) {
      const j = Math.floor(rnd() * (i + 1));
      [a[i], a[j]] = [a[j], a[i]];
    }
    return a;
  }
  \<close>
  The loop runs for \<open>i = length a - 1\<close> down to \<open>1\<close>; \<open>shuffle_loop n\<close> is the
  loop from \<open>i = n\<close>, with the array and the generator's seed as its state.
\<close>

definition swap :: "'a list \<Rightarrow> nat \<Rightarrow> nat \<Rightarrow> 'a list" where
  "swap a i j = a[i := a ! j, j := a ! i]"

fun shuffle_loop :: "nat \<Rightarrow> 'a list \<Rightarrow> u32 \<Rightarrow> 'a list" where
  "shuffle_loop 0 a seed = a"
| "shuffle_loop (Suc i') a seed =
     (let i = Suc i';
          (k, seed') = mulberry32 seed;
          j = floor_scaled k (i + 1)
      in shuffle_loop i' (swap a i j) seed')"

definition stableShuffle :: "'a list \<Rightarrow> string \<Rightarrow> 'a list" where
  "stableShuffle arr seedStr = shuffle_loop (length arr - 1) arr (hash32 seedStr)"

section \<open>Tie resolution\<close>

text \<open>
  \<^verbatim>\<open>
  const TOPA_FAVORITES = new Set<string>(["G", "H", "I"]);
  const TOPA_FAVORITE_ORDER: Record<string, number> = { H: 0, I: 1, G: 2 };
  \<close>
\<close>

definition TOPA_FAVORITES :: "string list" where
  "TOPA_FAVORITES = [''G'', ''H'', ''I'']"

definition TOPA_FAVORITE_ORDER :: "string \<rightharpoonup> nat" where
  "TOPA_FAVORITE_ORDER = map_of [(''H'', 0), (''I'', 1), (''G'', 2)]"

text \<open>
  \<^verbatim>\<open>
  function resolveTiePreferred(pid, component, trialId, leftId, rightId): "left" | "right" {
    const l = String(leftId || "");
    const r = String(rightId || "");
    const lFav = TOPA_FAVORITES.has(l);
    const rFav = TOPA_FAVORITES.has(r);
    if (lFav && rFav) {
      const lr = TOPA_FAVORITE_ORDER[l] ?? 999;
      const rr = TOPA_FAVORITE_ORDER[r] ?? 999;
      return lr <= rr ? "left" : "right";
    }
    if (lFav && !rFav) return "left";
    if (!lFav && rFav) return "right";
    const rnd = mulberry32(hash32(`${pid}::${component}::${trialId}::tie::${l}::${r}`));
    return rnd() < 0.5 ? "left" : "right";
  }
  \<close>
\<close>

definition favorite_order :: "string \<Rightarrow> nat" where
  "favorite_order m = (case TOPA_FAVORITE_ORDER m of None \<Rightarrow> 999 | Some n \<Rightarrow> n)"

definition tie_seed :: "string \<Rightarrow> string \<Rightarrow> int \<Rightarrow> string \<Rightarrow> string \<Rightarrow> string" where
  "tie_seed pid cname trialId l r =
     pid @ ''::'' @ cname @ ''::'' @ string_of_int trialId @ ''::tie::'' @ l @ ''::'' @ r"

definition resolveTiePreferred :: "string \<Rightarrow> string \<Rightarrow> int \<Rightarrow> string \<Rightarrow> string \<Rightarrow> side" where
  "resolveTiePreferred pid cname trialId leftId rightId =
     (let l = leftId; r = rightId;
          lFav = (l \<in> set TOPA_FAVORITES);
          rFav = (r \<in> set TOPA_FAVORITES)
      in if lFav \<and> rFav then
           (let lr = favorite_order l; rr = favorite_order r
            in if lr \<le> rr then Left else Right)
         else if lFav \<and> \<not> rFav then Left
         else if \<not> lFav \<and> rFav then Right
         else (let (k, seed') = mulberry32 (hash32 (tie_seed pid cname trialId l r))
               in if below_half k then Left else Right))"

section \<open>Pairing scheduler\<close>

text \<open>
  \<^verbatim>\<open>toLowerCase\<close> on code units below 256: the ASCII capitals and the Latin-1
  capitals (192 to 222, without the multiplication sign 215) move up by 32.
\<close>

definition lower_char :: "char \<Rightarrow> char" where
  "lower_char c =
     (let n = (of_char c :: nat)
      in if (65 \<le> n \<and> n \<le> 90) \<or> (192 \<le> n \<and> n \<le> 222 \<and> n \<noteq> 215) then char_of (n + 32) else c)"

definition toLowerCase :: "string \<Rightarrow> string" where
  "toLowerCase s = map lower_char s"

text \<open>
  \<^verbatim>\<open>
  const pref = String((last as any).resolved_preferred ?? last.preferred ?? "").toLowerCase();
  \<close>
\<close>

definition pref_of :: "row \<Rightarrow> string" where
  "pref_of last_row =
     toLowerCase (case resolved_preferred last_row of
                    Some v \<Rightarrow> v
                  | None \<Rightarrow> or_empty (preferred last_row))"

text \<open>
  \<^verbatim>\<open>
  let champion = "";
  if (pref === "left") champion = last.left_method_id;
  else if (pref === "right") champion = last.right_method_id;
  else if (pref === "tie") {
    const resolved = resolveTiePreferred(pid, component,
      Number(last.trial_id ?? rows.length),
      String(last.left_method_id), String(last.right_method_id));
    champion = resolved === "left" ? last.left_method_id : last.right_method_id;
  } else {
    champion = last.left_method_id;
  }
  \<close>
  for \<^verbatim>\<open>last = rows[rows.length - 1]\<close> of a non-empty \<^verbatim>\<open>rows\<close>.
\<close>

definition champion_of :: "string \<Rightarrow> string \<Rightarrow> row list \<Rightarrow> string" where
  "champion_of pid cname rows =
     (let last_row = last rows; pref = pref_of last_row
      in if pref = ''left'' then left_method_id last_row
         else if pref = ''right'' then right_method_id last_row
         else if pref = ''tie'' then
           (let resolved = resolveTiePreferred pid cname
                  (case trial_id last_row of None \<Rightarrow> int (length rows) | Some t \<Rightarrow> t)
                  (left_method_id last_row) (right_method_id last_row)
            in if resolved = Left then left_method_id last_row else right_method_id last_row)
         else left_method_id last_row)"

text \<open>
  \<^verbatim>\<open>
  const appeared = new Set<string>();
  for (const r of rows) {
    appeared.add(r.left_method_id);
    appeared.add(r.right_method_id);
  }
  \<close>
  The set is a list without repetitions, in insertion order; its \<^verbatim>\<open>size\<close> is the
  length.
\<close>

definition set_add :: "string \<Rightarrow> string list \<Rightarrow> string list" where
  "set_add x s = (if x \<in> set s then s else s @ [x])"

definition appeared_of :: "row list \<Rightarrow> string list" where
  "appeared_of rows =
     foldl (\<lambda>s r. set_add (right_method_id r) (set_add (left_method_id r) s)) [] rows"

text \<open>
  \<^verbatim>\<open>
  function nextPair(pid: string, component: string, methodIds: string[], history: any[]) {
    if (!pid || methodIds.length < 2) return null;
    const rows = history
      .filter((r) => r.participant_id === pid && r.component === component)
      .sort((a, b) => (a.trial_id ?? 0) - (b.trial_id ?? 0));
    if (rows.length === 0) {
      const shuffled = stableShuffle(methodIds, `${pid}::${component}`);
      return [shuffled[0], shuffled[1]];
    }
    const last = rows[rows.length - 1];
    ... champion, appeared ...
    const unseen = methodIds.filter((m) => !appeared.has(m) && m !== champion);
    if (unseen.length === 0) return null;
    const rnd = mulberry32(hash32(`${pid}::${component}::${appeared.size}`));
    const challenger = unseen[Math.floor(rnd() * unseen.length)];
    return [champion, challenger];
  }
  \<close>
  The comparator of the \<^verbatim>\<open>sort\<close> is the difference of the trial numbers, an absent
  one read as 0, so the stable sort is \<^const>\<open>sort_key\<close> on \<open>trial_or_zero\<close>. Both
  indexings of \<^verbatim>\<open>shuffled\<close> are in range, since the shuffle keeps the length, which
  is at least 2 there; so is the indexing of \<^verbatim>\<open>unseen\<close> (lemma
  \<open>floor_scaled_less\<close>).
\<close>

definition own_rows :: "string \<Rightarrow> string \<Rightarrow> row list \<Rightarrow> row list" where
  "own_rows pid cname history =
     sort_key trial_or_zero
       (filter (\<lambda>r. participant_id r = Some pid \<and> component r = Some cname) history)"

definition nextPair ::
  "string \<Rightarrow> string \<Rightarrow> string list \<Rightarrow> row list \<Rightarrow> (string \<times> string) option" where
  "nextPair pid cname methodIds history =
     (if pid = [] \<or> length methodIds < 2 then None
      else
        let rows = own_rows pid cname history
        in if length rows = 0 then
             (let shuffled = stableShuffle methodIds (pid @ ''::'' @ cname)
              in Some (shuffled ! 0, shuffled ! 1))
           else
             (let champion = champion_of pid cname rows;
                  appeared = appeared_of rows;
                  unseen = filter (\<lambda>m. m \<notin> set appeared \<and> m \<noteq> champion) methodIds
              in if length unseen = 0 then None
                 else
                   (let (k, seed') = mulberry32 (hash32
                          (pid @ ''::'' @ cname @ ''::'' @ string_of_nat (length appeared)));
                        challenger = unseen ! floor_scaled k (length unseen)
                    in Some (champion, challenger))))"

text \<open>
  Two parts of the steady-state branch, named so that statements can refer to them: the
  array \<^verbatim>\<open>unseen\<close> and the index \<^verbatim>\<open>Math.floor(rnd() * unseen.length)\<close>. Lemma
  \<open>nextPair_steady\<close> shows that \<open>nextPair\<close> computes exactly these.
\<close>

definition unseen_of :: "string \<Rightarrow> string \<Rightarrow> string list \<Rightarrow> row list \<Rightarrow> string list" where
  "unseen_of pid cname methodIds rows =
     filter (\<lambda>m. m \<notin> set (appeared_of rows) \<and> m \<noteq> champion_of pid cname rows) methodIds"

definition drawn_index :: "string \<Rightarrow> string \<Rightarrow> string list \<Rightarrow> row list \<Rightarrow> nat" where
  "drawn_index pid cname methodIds rows =
     floor_scaled (fst (mulberry32 (hash32
         (pid @ ''::'' @ cname @ ''::'' @ string_of_nat (length (appeared_of rows))))))
       (length (unseen_of pid cname methodIds rows))"

section \<open>Auxiliary notions for the statements and proofs\<close>

subsection \<open>Reconciliation\<close>

text \<open>Every entry of the map is stored under the key of its row.\<close>

definition keyed :: "row_map \<Rightarrow> bool" where
  "keyed m = (\<forall>(k, r) \<in> set m. k = historyKey r)"

text \<open>The map that \<open>mergeHistory\<close> builds, before its values are sorted.\<close>

definition merged_map :: "row list \<Rightarrow> row list \<Rightarrow> row_map" where
  "merged_map localRows remoteRows = foldl add_local (foldl add_remote [] remoteRows) localRows"

subsection \<open>Decimal digits\<close>

definition is_digit :: "char \<Rightarrow> bool" where
  "is_digit c = (48 \<le> (of_char c :: nat) \<and> (of_char c :: nat) \<le> 57)"

subsection \<open>Driving the tournament\<close>

text \<open>
  The application records a vote on the pair \<^verbatim>\<open>[leftId, rightId]\<close> that \<open>nextPair\<close>
  returned as a row of the participant and the component with these two method ids
  (\<^verbatim>\<open>voteObj\<close> in \<^verbatim>\<open>vote\<close>). \<open>is_vote_for\<close> asks no more of the row: its trial
  number, its preference and its resolved outcome are free, so every resolved outcome
  naming one of the two methods is covered.
\<close>

definition is_vote_for :: "string \<Rightarrow> string \<Rightarrow> string \<times> string \<Rightarrow> row \<Rightarrow> bool" where
  "is_vote_for pid cname pair r =
     (participant_id r = Some pid \<and> component r = Some cname \<and>
      left_method_id r = fst pair \<and> right_method_id r = snd pair)"

text \<open>
  \<open>played pid cname methodIds history votes\<close>: starting from \<open>history\<close>, each row of
  \<open>votes\<close> in turn is a vote on the pair that \<open>nextPair\<close> returns for the history so
  far, and is appended to it (\<^verbatim>\<open>setHistory((prev) => [...prev, voteObj])\<close>).
\<close>

fun played :: "string \<Rightarrow> string \<Rightarrow> string list \<Rightarrow> row list \<Rightarrow> row list \<Rightarrow> bool" where
  "played pid cname methodIds history [] = True"
| "played pid cname methodIds history (r # rs) =
     (case nextPair pid cname methodIds history of
        None \<Rightarrow> False
      | Some pair \<Rightarrow>
          is_vote_for pid cname pair r \<and> played pid cname methodIds (history @ [r]) rs)"

text \<open>The methods that appeared in the own rows, and the invariant of a tournament.\<close>

definition appeared_in :: "string \<Rightarrow> string \<Rightarrow> row list \<Rightarrow> string set" where
  "appeared_in pid cname history = set (appeared_of (own_rows pid cname history))"

definition tournament_inv :: "string \<Rightarrow> string \<Rightarrow> string list \<Rightarrow> row list \<Rightarrow> bool" where
  "tournament_inv pid cname methodIds history =
     (appeared_in pid cname history \<subseteq> set methodIds \<and>
      (own_rows pid cname history \<noteq> [] \<longrightarrow>
         card (appeared_in pid cname history) = length (own_rows pid cname history) + 1))"

section \<open>The calls on a store\<close>

text \<open>
  The functions above take arrays as values. In the source an array is a reference,
  \<^verbatim>\<open>sort\<close> and the swaps of the shuffle write in place, and the generator returned by
  \<^verbatim>\<open>mulberry32\<close> keeps its seed in a cell that every draw overwrites. The definitions
  below run the same code on a store that holds the arrays of strings, the arrays of rows
  and the seed cells, each with the number of references allocated so far. An argument
  that is an array is a reference into the store; \<^verbatim>\<open>filter\<close>, \<^verbatim>\<open>[...arr]\<close> and
  \<^verbatim>\<open>mulberry32(seed)\<close> allocate. Arrays that the source only reads after building them
  (\<^verbatim>\<open>unseen\<close>) and the set \<^verbatim>\<open>appeared\<close> stay values.
\<close>

record store =
  strings_at :: "nat \<Rightarrow> string list"
  rows_at :: "nat \<Rightarrow> row list"
  seed_at :: "nat \<Rightarrow> u32"
  strings_top :: nat
  rows_top :: nat
  seed_top :: nat

definition new_strings :: "string list \<Rightarrow> store \<Rightarrow> nat \<times> store" where
  "new_strings xs s =
     (strings_top s,
      s\<lparr>strings_at := (strings_at s)(strings_top s := xs), strings_top := Suc (strings_top s)\<rparr>)"

definition new_rows :: "row list \<Rightarrow> store \<Rightarrow> nat \<times> store" where
  "new_rows xs s =
     (rows_top s, s\<lparr>rows_at := (rows_at s)(rows_top s := xs), rows_top := Suc (rows_top s)\<rparr>)"

text \<open>\<^verbatim>\<open>mulberry32(seed)\<close>: a new generator, that is a new seed cell.\<close>

definition new_generator :: "u32 \<Rightarrow> store \<Rightarrow> nat \<times> store" where
  "new_generator seed s =
     (seed_top s, s\<lparr>seed_at := (seed_at s)(seed_top s := seed), seed_top := Suc (seed_top s)\<rparr>)"

text \<open>\<^verbatim>\<open>rnd()\<close> on the generator \<open>g\<close>: the draw, and the cell overwritten.\<close>

definition draw :: "nat \<Rightarrow> store \<Rightarrow> u32 \<times> store" where
  "draw g s =
     (let (k, seed') = mulberry32 (seed_at s g)
      in (k, s\<lparr>seed_at := (seed_at s)(g := seed')\<rparr>))"

fun shuffle_loop_st :: "nat \<Rightarrow> nat \<Rightarrow> nat \<Rightarrow> store \<Rightarrow> store" where
  "shuffle_loop_st 0 a g s = s"
| "shuffle_loop_st (Suc i') a g s =
     (let i = Suc i';
          (k, s1) = draw g s;
          j = floor_scaled k (i + 1);
          s2 = s1\<lparr>strings_at := (strings_at s1)(a := swap (strings_at s1 a) i j)\<rparr>
      in shuffle_loop_st i' a g s2)"

definition stableShuffle_st :: "nat \<Rightarrow> string \<Rightarrow> store \<Rightarrow> nat \<times> store" where
  "stableShuffle_st arr seedStr s =
     (let (a, s1) = new_strings (strings_at s arr) s;
          (rnd, s2) = new_generator (hash32 seedStr) s1;
          s3 = shuffle_loop_st (length (strings_at s2 a) - 1) a rnd s2
      in (a, s3))"

definition resolveTiePreferred_st ::
  "string \<Rightarrow> string \<Rightarrow> int \<Rightarrow> string \<Rightarrow> string \<Rightarrow> store \<Rightarrow> side \<times> store" where
  "resolveTiePreferred_st pid cname trialId leftId rightId s =
     (let l = leftId; r = rightId;
          lFav = (l \<in> set TOPA_FAVORITES);
          rFav = (r \<in> set TOPA_FAVORITES)
      in if lFav \<and> rFav then
           (let lr = favorite_order l; rr = favorite_order r
            in (if lr \<le> rr then Left else Right, s))
         else if lFav \<and> \<not> rFav then (Left, s)
         else if \<not> lFav \<and> rFav then (Right, s)
         else (let (rnd, s1) = new_generator (hash32 (tie_seed pid cname trialId l r)) s;
                   (k, s2) = draw rnd s1
               in (if below_half k then Left else Right, s2)))"

definition champion_st :: "string \<Rightarrow> string \<Rightarrow> row list \<Rightarrow> store \<Rightarrow> string \<times> store" where
  "champion_st pid cname rows s =
     (let last_row = last rows; pref = pref_of last_row
      in if pref = ''left'' then (left_method_id last_row, s)
         else if pref = ''right'' then (right_method_id last_row, s)
         else if pref = ''tie'' then
           (let (resolved, s1) = resolveTiePreferred_st pid cname
                  (case trial_id last_row of None \<Rightarrow> int (length rows) | Some t \<Rightarrow> t)
                  (left_method_id last_row) (right_method_id last_row) s
            in (if resolved = Left then left_method_id last_row else right_method_id last_row,
                s1))
         else (left_method_id last_row, s))"

definition nextPair_st ::
  "string \<Rightarrow> string \<Rightarrow> nat \<Rightarrow> nat \<Rightarrow> store \<Rightarrow> (string \<times> string) option \<times> store" where
  "nextPair_st pid cname methodIds history s =
     (if pid = [] \<or> length (strings_at s methodIds) < 2 then (None, s)
      else
        let (rows, s1) = new_rows
                (filter (\<lambda>r. participant_id r = Some pid \<and> component r = Some cname)
                   (rows_at s history)) s;
            s2 = s1\<lparr>rows_at := (rows_at s1)(rows := sort_key trial_or_zero (rows_at s1 rows))\<rparr>
        in if length (rows_at s2 rows) = 0 then
             (let (shuffled, s3) = stableShuffle_st methodIds (pid @ ''::'' @ cname) s2
              in (Some (strings_at s3 shuffled ! 0, strings_at s3 shuffled ! 1), s3))
           else
             (let (champion, s3) = champion_st pid cname (rows_at s2 rows) s2;
                  appeared = appeared_of (rows_at s3 rows);
                  unseen = filter (\<lambda>m. m \<notin> set appeared \<and> m \<noteq> champion)
                             (strings_at s3 methodIds)
              in if length unseen = 0 then (None, s3)
                 else
                   (let (rnd, s4) = new_generator (hash32
                          (pid @ ''::'' @ cname @ ''::'' @ string_of_nat (length appeared))) s3;
                        (k, s5) = draw rnd s4;
                        challenger = unseen ! floor_scaled k (length unseen)
                    in (Some (champion, challenger), s5))))"

text \<open>What a call may change: nothing that was allocated before it.\<close>

definition untouched :: "store \<Rightarrow> store \<Rightarrow> bool" where
  "untouched s s' =
     (strings_top s \<le> strings_top s' \<and> rows_top s \<le> rows_top s' \<and> seed_top s \<le> seed_top s' \<and>
      (\<forall>a < strings_top s. strings_at s' a = strings_at s a) \<and>
      (\<forall>a < rows_top s. rows_at s' a = rows_at s a) \<and>
      (\<forall>a < seed_top s. seed_at s' a = seed_at s a))"

text \<open>The store after \<^verbatim>\<open>history.filter(...).sort(...)\<close>.\<close>

definition sorted_store :: "string \<Rightarrow> string \<Rightarrow> nat \<Rightarrow> store \<Rightarrow> store" where
  "sorted_store pid cname history s =
     s\<lparr>rows_at := (rows_at s)(rows_top s := own_rows pid cname (rows_at s history)),
       rows_top := Suc (rows_top s)\<rparr>"

section \<open>Example rows\<close>

text \<open>Rows of participant \<^verbatim>\<open>P\<close> and component \<^verbatim>\<open>c\<close> for the concrete runs below.\<close>

definition shouting_row :: row where
  "shouting_row =
     \<lparr>participant_id = Some ''P'', component = Some ''c'', trial_id = Some 1,
      left_method_id = ''A'', right_method_id = ''B'', preferred = Some ''right'',
      resolved_preferred = Some ''RIGHT''\<rparr>"

definition tie_row :: row where
  "tie_row =
     \<lparr>participant_id = Some ''P'', component = Some ''c'', trial_id = Some 1,
      left_method_id = ''X'', right_method_id = ''H'', preferred = Some ''tie'',
      resolved_preferred = None\<rparr>"

definition corrupt_row :: row where
  "corrupt_row =
     \<lparr>participant_id = Some ''P'', component = Some ''c'', trial_id = Some 2,
      left_method_id = ''H'', right_method_id = ''B'', preferred = Some ''tie'',
      resolved_preferred = Some ''both''\<rparr>"

definition outsider_row :: row where
  "outsider_row =
     \<lparr>participant_id = Some ''P'', component = Some ''c'', trial_id = Some 1,
      left_method_id = ''X'', right_method_id = ''Y'', preferred = Some ''left'',
      resolved_preferred = Some ''left''\<rparr>"

text \<open>Two votes on the key (P1, cautions, 3) that differ in their outcome.\<close>

definition local_vote :: row where
  "local_vote =
     \<lparr>participant_id = Some ''P1'', component = Some ''cautions'', trial_id = Some 3,
      left_method_id = ''A'', right_method_id = ''B'', preferred = Some ''left'',
      resolved_preferred = Some ''left''\<rparr>"

definition remote_vote :: row where
  "remote_vote =
     \<lparr>participant_id = Some ''P1'', component = Some ''cautions'', trial_id = Some 3,
      left_method_id = ''A'', right_method_id = ''B'', preferred = Some ''right'',
      resolved_preferred = Some ''right''\<rparr>"

text \<open>Rows whose participant id or component contains the separator of the key.\<close>

definition colliding_local :: row where
  "colliding_local =
     \<lparr>participant_id = Some ''P1::cbt'', component = Some ''cautions'', trial_id = Some 3,
      left_method_id = ''A'', right_method_id = ''B'', preferred = Some ''tie'',
      resolved_preferred = Some ''left''\<rparr>"

definition colliding_remote_first :: row where
  "colliding_remote_first =
     \<lparr>participant_id = Some ''P1::cbt'', component = Some ''cautions'', trial_id = Some 3,
      left_method_id = ''A'', right_method_id = ''B'', preferred = Some ''left'',
      resolved_preferred = Some ''left''\<rparr>"

definition colliding_remote_second :: row where
  "colliding_remote_second =
     \<lparr>participant_id = Some ''P1'', component = Some ''cbt::cautions'', trial_id = Some 3,
      left_method_id = ''C'', right_method_id = ''D'', preferred = Some ''right'',
      resolved_preferred = Some ''right''\<rparr>"

text \<open>A full tournament of participant \<^verbatim>\<open>P\<close> on methods A, B and C.\<close>

definition first_vote :: row where
  "first_vote =
     \<lparr>participant_id = Some ''P'', component = Some ''c'', trial_id = Some 1,
      left_method_id = ''A'', right_method_id = ''C'', preferred = Some ''right'',
      resolved_preferred = Some ''right''\<rparr>"

definition second_vote :: row where
  "second_vote =
     \<lparr>participant_id = Some ''P'', component = Some ''c'', trial_id = Some 2,
      left_method_id = ''C'', right_method_id = ''B'', preferred = Some ''tie'',
      resolved_preferred = Some ''left''\<rparr>"

text \<open>
  Two stores that hold the methods A, B, C and an empty history, at different references
  and among different other contents.
\<close>

definition example_store :: store where
  "example_store =
     \<lparr>strings_at = (\<lambda>a. [])(0 := [''A'', ''B'', ''C'']), rows_at = (\<lambda>a. []),
      seed_at = (\<lambda>a. 0), strings_top = 1, rows_top = 1, seed_top = 0\<rparr>"

definition other_store :: store where
  "other_store =
     \<lparr>strings_at = (\<lambda>a. [''Z''])(3 := [''A'', ''B'', ''C'']),
      rows_at = (\<lambda>a. [outsider_row])(2 := []),
      seed_at = (\<lambda>a. 7), strings_top = 4, rows_top = 3, seed_top = 5\<rparr>"

section \<open>Definitions that follow the specification\<close>

text \<open>
  The rank of the specification's tie policy, \<open>H < I < G\<close>, written out from its
  words; \<open>resolveTiePreferred\<close> reads the table \<open>TOPA_FAVORITE_ORDER\<close> instead.
\<close>

definition rank_H_I_G :: "string \<Rightarrow> nat" where
  "rank_H_I_G m = (if m = ''H'' then 0 else if m = ''I'' then 1 else 2)"

section \<open>The generator and the shuffle\<close>

lemma floor_scaled_less: "0 < n \<Longrightarrow> floor_scaled k n < n"
proof -
  assume n: "0 < n"
  have "unat k < 2 ^ 32"
    using unsigned_less [of k] by simp
  then have "unat k * n < n * 2 ^ 32"
    using n by simp
  then show ?thesis
    unfolding floor_scaled_def by (rule less_mult_imp_div_less)
qed

lemma length_swap [simp]: "length (swap a i j) = length a"
  by (simp add: swap_def)

lemma mset_swap_eq: "i < length a \<Longrightarrow> j < length a \<Longrightarrow> mset (swap a i j) = mset a"
  unfolding swap_def by (rule mset_swap)

lemma mset_shuffle_loop: "n < length a \<Longrightarrow> mset (shuffle_loop n a seed) = mset a"
proof (induction n arbitrary: a seed)
  case 0
  then show ?case by simp
next
  case (Suc n)
  obtain k seed' where m: "mulberry32 seed = (k, seed')"
    by (cases "mulberry32 seed")
  let ?j = "floor_scaled k (Suc n + 1)"
  have j: "?j < length a"
    using floor_scaled_less [of "Suc n + 1" k] Suc.prems by simp
  have "mset (shuffle_loop n (swap a (Suc n) ?j) seed') = mset (swap a (Suc n) ?j)"
    using Suc.prems by (intro Suc.IH) simp
  also have "\<dots> = mset a"
    using Suc.prems j by (rule mset_swap_eq)
  finally show ?case
    by (simp add: m Let_def)
qed

lemma mset_stableShuffle: "mset (stableShuffle arr seedStr) = mset arr"
proof (cases arr)
  case Nil
  then show ?thesis by (simp add: stableShuffle_def)
next
  case (Cons x xs)
  then show ?thesis
    unfolding stableShuffle_def by (intro mset_shuffle_loop) simp
qed

lemma length_stableShuffle: "length (stableShuffle arr seedStr) = length arr"
  using mset_stableShuffle [of arr seedStr] by (metis size_mset)

lemma set_stableShuffle: "set (stableShuffle arr seedStr) = set arr"
  using mset_stableShuffle [of arr seedStr] by (metis set_mset_mset)

lemma distinct_stableShuffle: "distinct (stableShuffle arr seedStr) = distinct arr"
  using mset_stableShuffle [of arr seedStr] by (metis mset_eq_imp_distinct_iff)

section \<open>Tie resolution policy\<close>

lemma favorites_mem: "m \<in> set TOPA_FAVORITES \<longleftrightarrow> m = ''G'' \<or> m = ''H'' \<or> m = ''I''"
  by (auto simp: TOPA_FAVORITES_def)

lemma favorite_order_simps:
  "favorite_order ''H'' = 0" "favorite_order ''I'' = 1" "favorite_order ''G'' = 2"
  by (simp_all add: favorite_order_def TOPA_FAVORITE_ORDER_def)

lemma resolveTie_both:
  "l \<in> set TOPA_FAVORITES \<Longrightarrow> r \<in> set TOPA_FAVORITES \<Longrightarrow>
   resolveTiePreferred pid cname trialId l r =
     (if favorite_order l \<le> favorite_order r then Left else Right)"
  by (simp add: resolveTiePreferred_def)

lemma resolveTie_left_only:
  "l \<in> set TOPA_FAVORITES \<Longrightarrow> r \<notin> set TOPA_FAVORITES \<Longrightarrow>
   resolveTiePreferred pid cname trialId l r = Left"
  by (simp add: resolveTiePreferred_def)

lemma resolveTie_right_only:
  "l \<notin> set TOPA_FAVORITES \<Longrightarrow> r \<in> set TOPA_FAVORITES \<Longrightarrow>
   resolveTiePreferred pid cname trialId l r = Right"
  by (simp add: resolveTiePreferred_def)

lemma favorite_order_rank:
  "m \<in> set TOPA_FAVORITES \<Longrightarrow> favorite_order m = rank_H_I_G m"
  unfolding favorites_mem
  by (elim disjE) (simp_all add: favorite_order_simps rank_H_I_G_def)

text \<open>
  Claim C4. Whatever the participant, the component and the trial: when both methods are
  among G, H and I, the tie goes to the side whose method has the lower rank under
  \<open>H < I < G\<close> (to the left when both sides hold the same method); when exactly one
  is, the tie goes to that side. In particular H against I and I against G go left, and X
  against H goes right.
\<close>

theorem tie_favorites_policy:
  "(l \<in> {''G'', ''H'', ''I''} \<and> r \<in> {''G'', ''H'', ''I''} \<longrightarrow>
      resolveTiePreferred pid cname trialId l r =
        (if rank_H_I_G l \<le> rank_H_I_G r then Left else Right)) \<and>
   (l \<in> {''G'', ''H'', ''I''} \<and> r \<notin> {''G'', ''H'', ''I''} \<longrightarrow>
      resolveTiePreferred pid cname trialId l r = Left) \<and>
   (l \<notin> {''G'', ''H'', ''I''} \<and> r \<in> {''G'', ''H'', ''I''} \<longrightarrow>
      resolveTiePreferred pid cname trialId l r = Right) \<and>
   resolveTiePreferred pid cname trialId ''H'' ''I'' = Left \<and>
   resolveTiePreferred pid cname trialId ''I'' ''G'' = Left \<and>
   resolveTiePreferred pid cname trialId ''X'' ''H'' = Right"
proof -
  have F: "set TOPA_FAVORITES = {''G'', ''H'', ''I''}"
    by (simp add: TOPA_FAVORITES_def)
  have both: "resolveTiePreferred pid cname trialId l r =
        (if rank_H_I_G l \<le> rank_H_I_G r then Left else Right)"
    if "l \<in> {''G'', ''H'', ''I''} \<and> r \<in> {''G'', ''H'', ''I''}"
    using that unfolding F [symmetric]
    by (simp add: resolveTie_both favorite_order_rank)
  have left_only: "resolveTiePreferred pid cname trialId l r = Left"
    if "l \<in> {''G'', ''H'', ''I''} \<and> r \<notin> {''G'', ''H'', ''I''}"
    using that unfolding F [symmetric] by (simp add: resolveTie_left_only)
  have right_only: "resolveTiePreferred pid cname trialId l r = Right"
    if "l \<notin> {''G'', ''H'', ''I''} \<and> r \<in> {''G'', ''H'', ''I''}"
    using that unfolding F [symmetric] by (simp add: resolveTie_right_only)
  have e1: "resolveTiePreferred pid cname trialId ''H'' ''I'' = Left"
    by (simp add: resolveTie_both favorites_mem favorite_order_simps)
  have e2: "resolveTiePreferred pid cname trialId ''I'' ''G'' = Left"
    by (simp add: resolveTie_both favorites_mem favorite_order_simps)
  have e3: "resolveTiePreferred pid cname trialId ''X'' ''H'' = Right"
    by (simp add: resolveTie_right_only favorites_mem)
  from both left_only right_only e1 e2 e3 show ?thesis
    by blast
qed

theorem tie_favorites_policy_witness:
  "resolveTiePreferred ''P00001'' ''cautions'' 3 ''G'' ''H'' = Right \<and>
   resolveTiePreferred ''P00001'' ''cautions'' 3 ''I'' ''B'' = Left \<and>
   resolveTiePreferred ''P00001'' ''cautions'' 3 ''B'' ''G'' = Right"
proof -
  have 1: "resolveTiePreferred ''P00001'' ''cautions'' 3 ''G'' ''H'' = Right"
    using tie_favorites_policy [of "''G''" "''H''" "''P00001''" "''cautions''" 3]
    by (simp add: rank_H_I_G_def)
  have 2: "resolveTiePreferred ''P00001'' ''cautions'' 3 ''I'' ''B'' = Left"
    using tie_favorites_policy [of "''I''" "''B''" "''P00001''" "''cautions''" 3]
    by simp
  have 3: "resolveTiePreferred ''P00001'' ''cautions'' 3 ''B'' ''G'' = Right"
    using tie_favorites_policy [of "''B''" "''G''" "''P00001''" "''cautions''" 3]
    by simp
  from 1 2 3 show ?thesis by simp
qed

section \<open>Insufficient input\<close>

text \<open>
  Claim C8. With an empty participant id, or fewer than two eligible methods,
  \<open>nextPair\<close> returns \<^verbatim>\<open>null\<close>, whatever the component and the history.
\<close>

theorem nextPair_insufficient_input:
  "pid = [] \<or> length methodIds < 2 \<Longrightarrow> nextPair pid cname methodIds history = None"
  by (auto simp: nextPair_def)

theorem nextPair_insufficient_input_witness:
  "nextPair [] ''cautions'' [''A'', ''B'', ''C'']
     [\<lparr>participant_id = Some [], component = Some ''cautions'', trial_id = Some 1,
       left_method_id = ''A'', right_method_id = ''B'', preferred = Some ''left'',
       resolved_preferred = Some ''left''\<rparr>] = None
   \<and> nextPair ''P00001'' ''cautions'' [''A''] [] = None"
  using nextPair_insufficient_input [of "[]" "[''A'', ''B'', ''C'']" "''cautions''"]
    nextPair_insufficient_input [of "''P00001''" "[''A'']" "''cautions''" "[]"]
  by simp

section \<open>Bootstrap pair\<close>

lemma own_rows_Nil_iff:
  "own_rows pid cname history = [] \<longleftrightarrow>
   (\<forall>r \<in> set history. \<not> (participant_id r = Some pid \<and> component r = Some cname))"
proof -
  have "own_rows pid cname history = [] \<longleftrightarrow> set (own_rows pid cname history) = {}"
    by simp
  then show ?thesis
    by (auto simp: own_rows_def)
qed

lemma set_own_rows:
  "set (own_rows pid cname history) =
   {r \<in> set history. participant_id r = Some pid \<and> component r = Some cname}"
  by (auto simp: own_rows_def)

lemma stableShuffle_first_two:
  assumes "2 \<le> length arr"
  obtains a b rest where "stableShuffle arr seedStr = a # b # rest"
proof -
  have "2 \<le> length (stableShuffle arr seedStr)"
    using assms by (simp add: length_stableShuffle)
  then show ?thesis
    using that by (cases "stableShuffle arr seedStr" rule: remdups_adj.cases) auto
qed

text \<open>
  Claim C3, with the seed as the source builds it. When the participant id is not empty,
  at least two methods are eligible and history holds no row of this participant and
  component, \<open>nextPair\<close> returns the first two entries of the shuffle of the
  eligible methods seeded with the participant id, the separator \<^verbatim>\<open>::\<close> and the
  component; the shuffle is a permutation of the eligible methods.
\<close>

theorem nextPair_bootstrap:
  assumes "pid \<noteq> []" and "2 \<le> length methodIds"
    and "own_rows pid cname history = []"
  shows "\<exists>a b rest.
           stableShuffle methodIds (pid @ ''::'' @ cname) = a # b # rest \<and>
           mset (a # b # rest) = mset methodIds \<and>
           nextPair pid cname methodIds history = Some (a, b)"
proof -
  obtain a b rest where s: "stableShuffle methodIds (pid @ ''::'' @ cname) = a # b # rest"
    using assms(2) by (rule stableShuffle_first_two)
  have "mset (a # b # rest) = mset methodIds"
    using mset_stableShuffle [of methodIds "pid @ ''::'' @ cname"] s by simp
  moreover have "nextPair pid cname methodIds history = Some (a, b)"
    using assms s by (simp add: nextPair_def Let_def)
  ultimately show ?thesis
    using s by blast
qed

lemma hash32_P_c: "hash32 ''P::c'' = 2588416324"
  by (simp add: hash32_def charCode_def)

lemma hash32_Pc: "hash32 ''Pc'' = 1308636804"
  by (simp add: hash32_def charCode_def)

lemma mulberry32_values:
  "mulberry32 2588416324 = (2065569361, 125014841)"
  "mulberry32 125014841 = (2420527881, 1956580654)"
  "mulberry32 1308636804 = (233863210, 3140202617)"
  "mulberry32 3140202617 = (3806566250, 676801134)"
  by (simp_all add: mulberry32_def Let_def)

lemma floor_scaled_values:
  "floor_scaled 2065569361 (Suc (Suc (Suc 0))) = Suc 0"
  "floor_scaled 2420527881 (Suc (Suc 0)) = Suc 0"
  "floor_scaled 233863210 (Suc (Suc (Suc 0))) = 0"
  "floor_scaled 3806566250 (Suc (Suc 0)) = Suc 0"
  by (simp_all add: floor_scaled_def)

lemma shuffle_ABC_P_c: "stableShuffle [''A'', ''B'', ''C''] ''P::c'' = [''A'', ''C'', ''B'']"
proof -
  have "shuffle_loop (Suc (Suc 0)) [''A'', ''B'', ''C''] 2588416324 = [''A'', ''C'', ''B'']"
    by (simp add: mulberry32_values floor_scaled_values swap_def)
  then show ?thesis
    by (simp add: stableShuffle_def hash32_P_c numeral_2_eq_2)
qed

lemma shuffle_ABC_Pc: "stableShuffle [''A'', ''B'', ''C''] ''Pc'' = [''C'', ''B'', ''A'']"
proof -
  have "shuffle_loop (Suc (Suc 0)) [''A'', ''B'', ''C''] 1308636804 = [''C'', ''B'', ''A'']"
    by (simp add: mulberry32_values floor_scaled_values swap_def)
  then show ?thesis
    by (simp add: stableShuffle_def hash32_Pc numeral_2_eq_2)
qed

theorem nextPair_bootstrap_witness:
  "nextPair ''P'' ''c'' [''A'', ''B'', ''C''] [] = Some (''A'', ''C'')"
  using nextPair_bootstrap [of "''P''" "[''A'', ''B'', ''C'']" "''c''" "[]"]
  by (simp add: own_rows_def shuffle_ABC_P_c)

text \<open>
  Claim C3 as stated fails: the seed is not the plain concatenation of participant id and
  component. For
  participant \<^verbatim>\<open>P\<close>, component \<^verbatim>\<open>c\<close> and methods A, B, C the shuffle seeded with
  \<^verbatim>\<open>Pc\<close> starts with C and B, and \<open>nextPair\<close> returns A and C.
\<close>

theorem nextPair_bootstrap_seed_counterexample:
  "''P'' \<noteq> [] \<and> 2 \<le> length [''A'', ''B'', ''C''] \<and> own_rows ''P'' ''c'' [] = [] \<and>
   stableShuffle [''A'', ''B'', ''C''] (''P'' @ ''c'') = [''C'', ''B'', ''A''] \<and>
   nextPair ''P'' ''c'' [''A'', ''B'', ''C''] [] = Some (''A'', ''C'')"
  by (simp add: own_rows_def shuffle_ABC_Pc nextPair_def shuffle_ABC_P_c)

section \<open>Champion and challenger\<close>

lemma own_rows_last_mem:
  "own_rows pid cname history \<noteq> [] \<Longrightarrow> last (own_rows pid cname history) \<in> set history"
  using last_in_set [of "own_rows pid cname history"] by (simp add: set_own_rows)

lemma own_rows_last_own:
  assumes "own_rows pid cname history \<noteq> []"
  shows "participant_id (last (own_rows pid cname history)) = Some pid"
    and "component (last (own_rows pid cname history)) = Some cname"
  using last_in_set [OF assms] by (simp_all add: set_own_rows)

lemma sorted_last_greatest:
  "sorted (map f xs) \<Longrightarrow> x \<in> set xs \<Longrightarrow> f x \<le> f (last xs)"
proof (induction xs)
  case Nil
  then show ?case by simp
next
  case (Cons y ys)
  then show ?case by (cases ys) auto
qed

lemma own_rows_last_greatest:
  "r \<in> set (own_rows pid cname history) \<Longrightarrow>
   trial_or_zero r \<le> trial_or_zero (last (own_rows pid cname history))"
  unfolding own_rows_def by (rule sorted_last_greatest) (simp_all add: sorted_sort_key)

lemma champion_of_cases:
  "champion_of pid cname rows = left_method_id (last rows) \<or>
   champion_of pid cname rows = right_method_id (last rows)"
  by (simp add: champion_of_def Let_def)

lemma set_appeared_of_aux:
  "set (foldl (\<lambda>s r. set_add (right_method_id r) (set_add (left_method_id r) s)) acc rows) =
   set acc \<union> left_method_id ` set rows \<union> right_method_id ` set rows"
  by (induction rows arbitrary: acc) (auto simp: set_add_def)

lemma set_appeared_of:
  "set (appeared_of rows) = left_method_id ` set rows \<union> right_method_id ` set rows"
  by (simp add: appeared_of_def set_appeared_of_aux)

lemma distinct_appeared_of_aux:
  "distinct acc \<Longrightarrow>
   distinct (foldl (\<lambda>s r. set_add (right_method_id r) (set_add (left_method_id r) s)) acc rows)"
  by (induction rows arbitrary: acc) (auto simp: set_add_def)

lemma distinct_appeared_of: "distinct (appeared_of rows)"
  by (simp add: appeared_of_def distinct_appeared_of_aux)

lemma champion_appeared:
  "rows \<noteq> [] \<Longrightarrow> champion_of pid cname rows \<in> set (appeared_of rows)"
  using champion_of_cases [of pid cname rows] last_in_set [of rows]
  by (auto simp: set_appeared_of)

text \<open>The steady-state branch of \<open>nextPair\<close>, in terms of its named parts.\<close>

lemma nextPair_steady:
  assumes "pid \<noteq> []" and "2 \<le> length methodIds" and "own_rows pid cname history \<noteq> []"
  shows "nextPair pid cname methodIds history =
           (if unseen_of pid cname methodIds (own_rows pid cname history) = [] then None
            else Some (champion_of pid cname (own_rows pid cname history),
                       unseen_of pid cname methodIds (own_rows pid cname history) !
                         drawn_index pid cname methodIds (own_rows pid cname history)))"
proof -
  have "\<not> (pid = [] \<or> length methodIds < 2)"
    using assms by simp
  moreover have "length (own_rows pid cname history) \<noteq> 0"
    using assms by simp
  ultimately show ?thesis
    unfolding nextPair_def unseen_of_def drawn_index_def Let_def
    by (simp only: if_False case_prod_beta length_0_conv)
qed

lemma nextPair_Some_pre:
  "nextPair pid cname methodIds history = Some p \<Longrightarrow> pid \<noteq> [] \<and> 2 \<le> length methodIds"
  by (cases "pid = [] \<or> length methodIds < 2") (auto simp: nextPair_def)

lemma drawn_index_less:
  "unseen_of pid cname methodIds rows \<noteq> [] \<Longrightarrow>
   drawn_index pid cname methodIds rows < length (unseen_of pid cname methodIds rows)"
  unfolding drawn_index_def by (rule floor_scaled_less) simp

lemma unseen_of_subset:
  "m \<in> set (unseen_of pid cname methodIds rows) \<Longrightarrow>
   m \<in> set methodIds \<and> m \<notin> set (appeared_of rows) \<and> m \<noteq> champion_of pid cname rows"
  by (simp add: unseen_of_def)

lemma nextPair_steady_challenger:
  assumes "own_rows pid cname history \<noteq> []"
    and "nextPair pid cname methodIds history = Some (a, b)"
  shows "a = champion_of pid cname (own_rows pid cname history)"
    and "b \<in> set methodIds"
    and "b \<notin> set (appeared_of (own_rows pid cname history))"
proof -
  let ?rows = "own_rows pid cname history"
  let ?unseen = "unseen_of pid cname methodIds ?rows"
  let ?j = "drawn_index pid cname methodIds ?rows"
  have pre: "pid \<noteq> []" "2 \<le> length methodIds"
    using nextPair_Some_pre [OF assms(2)] by simp_all
  have np: "nextPair pid cname methodIds history =
           (if ?unseen = [] then None else Some (champion_of pid cname ?rows, ?unseen ! ?j))"
    using pre assms(1) by (rule nextPair_steady)
  have ne: "?unseen \<noteq> []"
    using np assms(2) by (cases "?unseen = []") simp_all
  with np assms(2) have ab: "a = champion_of pid cname ?rows" "b = ?unseen ! ?j"
    by simp_all
  have "?j < length ?unseen"
    using ne by (rule drawn_index_less)
  then have "b \<in> set ?unseen"
    using ab(2) by simp
  then show "b \<in> set methodIds" and "b \<notin> set (appeared_of ?rows)"
    using unseen_of_subset [of b pid cname methodIds ?rows] by simp_all
  show "a = champion_of pid cname ?rows"
    by (rule ab(1))
qed

lemma nextPair_bootstrap_members:
  assumes "own_rows pid cname history = []"
    and "nextPair pid cname methodIds history = Some (a, b)"
  shows "a \<in> set methodIds" and "b \<in> set methodIds" and "distinct methodIds \<Longrightarrow> a \<noteq> b"
proof -
  have pre: "pid \<noteq> []" "2 \<le> length methodIds"
    using nextPair_Some_pre [OF assms(2)] by simp_all
  let ?s = "stableShuffle methodIds (pid @ ''::'' @ cname)"
  have "nextPair pid cname methodIds history = Some (?s ! 0, ?s ! 1)"
    using assms(1) pre by (simp add: nextPair_def Let_def)
  with assms(2) have ab: "a = ?s ! 0" "b = ?s ! 1"
    by simp_all
  have len: "0 < length ?s" "1 < length ?s"
    using pre by (auto simp: length_stableShuffle)
  then have "?s ! 0 \<in> set ?s" "?s ! 1 \<in> set ?s"
    by (simp_all only: nth_mem)
  then show "a \<in> set methodIds" and "b \<in> set methodIds"
    using ab by (simp_all add: set_stableShuffle)
  show "a \<noteq> b" if "distinct methodIds"
  proof -
    have "distinct ?s"
      using that by (simp add: distinct_stableShuffle)
    then have "?s ! 0 \<noteq> ?s ! 1"
      using len by (simp add: nth_eq_iff_index_eq)
    then show ?thesis
      using ab by simp
  qed
qed

section \<open>Champion derivation\<close>

text \<open>
  Claim C9, with the comparison as the source makes it: on the lower-cased value. For a
  non-empty list of own rows, the last row is a row of history of this participant and
  component whose trial number is the greatest. Its value is \<open>resolved_preferred\<close>
  when present, otherwise \<open>preferred\<close>, otherwise the empty string. When the
  lower-cased value is \<^verbatim>\<open>left\<close> the champion is the left method, when it is
  \<^verbatim>\<open>right\<close> the right method, when it is \<^verbatim>\<open>tie\<close> the side that
  \<open>resolveTiePreferred\<close> gives on the last row's trial number (the number of rows
  when absent) and its two methods, and otherwise the left method. \<open>nextPair\<close> then
  returns \<^verbatim>\<open>null\<close> or a pair that starts with this champion: no input makes it fail.
\<close>

theorem champion_derivation:
  assumes "rows = own_rows pid cname history" and "rows \<noteq> []"
    and "v = (case resolved_preferred (last rows) of
                Some x \<Rightarrow> x
              | None \<Rightarrow> (case preferred (last rows) of Some y \<Rightarrow> y | None \<Rightarrow> []))"
  shows "last rows \<in> set history \<and>
         participant_id (last rows) = Some pid \<and> component (last rows) = Some cname \<and>
         (\<forall>r \<in> set rows. trial_or_zero r \<le> trial_or_zero (last rows)) \<and>
         (toLowerCase v = ''left'' \<longrightarrow>
            champion_of pid cname rows = left_method_id (last rows)) \<and>
         (toLowerCase v = ''right'' \<longrightarrow>
            champion_of pid cname rows = right_method_id (last rows)) \<and>
         (toLowerCase v = ''tie'' \<longrightarrow>
            champion_of pid cname rows =
              (case resolveTiePreferred pid cname
                      (case trial_id (last rows) of Some t \<Rightarrow> t | None \<Rightarrow> int (length rows))
                      (left_method_id (last rows)) (right_method_id (last rows)) of
                 Left \<Rightarrow> left_method_id (last rows)
               | Right \<Rightarrow> right_method_id (last rows))) \<and>
         (toLowerCase v \<notin> {''left'', ''right'', ''tie''} \<longrightarrow>
            champion_of pid cname rows = left_method_id (last rows)) \<and>
         (pid \<noteq> [] \<and> 2 \<le> length methodIds \<longrightarrow>
            nextPair pid cname methodIds history = None \<or>
            (\<exists>challenger. nextPair pid cname methodIds history =
                             Some (champion_of pid cname rows, challenger)))"
proof -
  have ne: "own_rows pid cname history \<noteq> []"
    using assms(1,2) by simp
  have p: "pref_of (last rows) = toLowerCase v"
    by (simp add: pref_of_def or_empty_def assms(3) split: option.split)
  have 1: "last rows \<in> set history"
    unfolding assms(1) using ne by (rule own_rows_last_mem)
  have 2: "participant_id (last rows) = Some pid" "component (last rows) = Some cname"
    unfolding assms(1) using ne by (rule own_rows_last_own)+
  have 3: "\<forall>r \<in> set rows. trial_or_zero r \<le> trial_or_zero (last rows)"
    unfolding assms(1) using own_rows_last_greatest by blast
  have 4: "champion_of pid cname rows = left_method_id (last rows)"
    if "toLowerCase v = ''left''"
    using that p by (simp add: champion_of_def Let_def)
  have 5: "champion_of pid cname rows = right_method_id (last rows)"
    if "toLowerCase v = ''right''"
    using that p by (simp add: champion_of_def Let_def)
  have 6: "champion_of pid cname rows =
              (case resolveTiePreferred pid cname
                      (case trial_id (last rows) of Some t \<Rightarrow> t | None \<Rightarrow> int (length rows))
                      (left_method_id (last rows)) (right_method_id (last rows)) of
                 Left \<Rightarrow> left_method_id (last rows)
               | Right \<Rightarrow> right_method_id (last rows))"
    if "toLowerCase v = ''tie''"
    using that p by (simp add: champion_of_def Let_def split: side.split option.split)
  have 7: "champion_of pid cname rows = left_method_id (last rows)"
    if "toLowerCase v \<notin> {''left'', ''right'', ''tie''}"
    using that p by (simp add: champion_of_def Let_def)
  have 8: "nextPair pid cname methodIds history = None \<or>
            (\<exists>challenger. nextPair pid cname methodIds history =
                             Some (champion_of pid cname rows, challenger))"
    if "pid \<noteq> [] \<and> 2 \<le> length methodIds"
    using nextPair_steady [of pid methodIds cname history] that ne
    by (simp add: assms(1))
  from 1 2 3 4 5 6 7 8 show ?thesis
    by blast
qed

lemma toLowerCase_values:
  "toLowerCase ''RIGHT'' = ''right''" "toLowerCase ''tie'' = ''tie''"
  "toLowerCase ''both'' = ''both''"
  by (simp_all add: toLowerCase_def lower_char_def char_of_eq_iff)

lemma example_row_fields:
  "participant_id tie_row = Some ''P''" "component tie_row = Some ''c''"
  "participant_id corrupt_row = Some ''P''" "component corrupt_row = Some ''c''"
  "trial_or_zero tie_row = 1" "trial_or_zero corrupt_row = 2"
  "trial_id tie_row = Some 1"
  "left_method_id tie_row = ''X''" "right_method_id tie_row = ''H''"
  "resolved_preferred tie_row = None" "preferred tie_row = Some ''tie''"
  "left_method_id corrupt_row = ''H''" "resolved_preferred corrupt_row = Some ''both''"
  by (simp_all add: tie_row_def corrupt_row_def trial_or_zero_def)

theorem champion_derivation_witness:
  "champion_of ''P'' ''c'' [tie_row] = ''H'' \<and>
   champion_of ''P'' ''c'' [tie_row, corrupt_row] = ''H''"
proof -
  have r1: "[tie_row] = own_rows ''P'' ''c'' [tie_row]"
    by (simp add: own_rows_def example_row_fields)
  have v1: "''tie'' = (case resolved_preferred (last [tie_row]) of
                Some x \<Rightarrow> x
              | None \<Rightarrow> (case preferred (last [tie_row]) of Some y \<Rightarrow> y | None \<Rightarrow> []))"
    by (simp add: example_row_fields)
  have r2: "[tie_row, corrupt_row] = own_rows ''P'' ''c'' [corrupt_row, tie_row]"
    by (simp add: own_rows_def example_row_fields)
  have v2: "''both'' = (case resolved_preferred (last [tie_row, corrupt_row]) of
                Some x \<Rightarrow> x
              | None \<Rightarrow> (case preferred (last [tie_row, corrupt_row]) of
                          Some y \<Rightarrow> y | None \<Rightarrow> []))"
    by (simp add: example_row_fields)
  have t: "resolveTiePreferred ''P'' ''c'' 1 ''X'' ''H'' = Right"
    by (simp add: resolveTie_right_only favorites_mem)
  have "toLowerCase ''tie'' = ''tie'' \<longrightarrow>
        champion_of ''P'' ''c'' [tie_row] =
          (case resolveTiePreferred ''P'' ''c''
                  (case trial_id (last [tie_row]) of Some t \<Rightarrow> t
                   | None \<Rightarrow> int (length [tie_row]))
                  (left_method_id (last [tie_row])) (right_method_id (last [tie_row])) of
             Left \<Rightarrow> left_method_id (last [tie_row])
           | Right \<Rightarrow> right_method_id (last [tie_row]))"
    using champion_derivation [OF r1 _ v1] by blast
  then have 1: "champion_of ''P'' ''c'' [tie_row] = ''H''"
    by (simp add: toLowerCase_values example_row_fields t)
  have "toLowerCase ''both'' \<notin> {''left'', ''right'', ''tie''} \<longrightarrow>
        champion_of ''P'' ''c'' [tie_row, corrupt_row] =
          left_method_id (last [tie_row, corrupt_row])"
    using champion_derivation [OF r2 _ v2] by blast
  then have 2: "champion_of ''P'' ''c'' [tie_row, corrupt_row] = ''H''"
    by (simp add: toLowerCase_values example_row_fields)
  from 1 2 show ?thesis
    by simp
qed

lemma floor_scaled_one: "floor_scaled k (Suc 0) = 0"
  using floor_scaled_less [of "Suc 0" k] by simp

text \<open>
  Claim C9 as stated fails, since the comparison is not on the stored value itself: the
  value \<^verbatim>\<open>RIGHT\<close> is none of
  \<^verbatim>\<open>left\<close>, \<^verbatim>\<open>right\<close> and \<^verbatim>\<open>tie\<close>, and the champion is the right method B,
  not the left method A.
\<close>

theorem champion_literal_value_counterexample:
  "own_rows ''P'' ''c'' [shouting_row] = [shouting_row] \<and>
   resolved_preferred shouting_row = Some ''RIGHT'' \<and>
   ''RIGHT'' \<noteq> ''left'' \<and> ''RIGHT'' \<noteq> ''right'' \<and> ''RIGHT'' \<noteq> ''tie'' \<and>
   left_method_id shouting_row = ''A'' \<and>
   champion_of ''P'' ''c'' [shouting_row] = ''B'' \<and>
   nextPair ''P'' ''c'' [''A'', ''B'', ''C''] [shouting_row] = Some (''B'', ''C'')"
proof -
  have o: "own_rows ''P'' ''c'' [shouting_row] = [shouting_row]"
    by (simp add: own_rows_def shouting_row_def)
  have c: "champion_of ''P'' ''c'' [shouting_row] = ''B''"
    by (simp add: champion_of_def pref_of_def toLowerCase_values shouting_row_def)
  have a: "appeared_of [shouting_row] = [''A'', ''B'']"
    by (simp add: appeared_of_def set_add_def shouting_row_def)
  have u: "unseen_of ''P'' ''c'' [''A'', ''B'', ''C''] [shouting_row] = [''C'']"
    by (simp add: unseen_of_def a c)
  have "nextPair ''P'' ''c'' [''A'', ''B'', ''C''] [shouting_row] = Some (''B'', ''C'')"
    using nextPair_steady [of "''P''" "[''A'', ''B'', ''C'']" "''c''" "[shouting_row]"]
    by (simp add: o u c drawn_index_def floor_scaled_one)
  then show ?thesis
    using o c by (simp add: shouting_row_def)
qed

section \<open>Eligibility of the returned pair\<close>

lemma string_of_nat_digit: "n < 10 \<Longrightarrow> string_of_nat n = [digit_char n]"
  by (subst string_of_nat.simps) simp

lemma digit_char_values:
  "digit_char 0 = CHR ''0''" "digit_char 1 = CHR ''1''" "digit_char 2 = CHR ''2''"
  "digit_char 3 = CHR ''3''" "digit_char 4 = CHR ''4''" "digit_char 5 = CHR ''5''"
  "digit_char 6 = CHR ''6''" "digit_char 7 = CHR ''7''" "digit_char 8 = CHR ''8''"
  "digit_char 9 = CHR ''9''"
  by (simp_all add: digit_char_def char_of_eq_iff)

lemma hash32_P_c_2: "hash32 ''P::c::2'' = 3728038486"
  by (simp add: hash32_def charCode_def)

lemma mulberry32_3728038486: "mulberry32 3728038486 = (1959637203, 1264637003)"
  by (simp add: mulberry32_def Let_def)

lemma floor_scaled_1959637203: "floor_scaled 1959637203 (Suc (Suc 0)) = 0"
  by (simp add: floor_scaled_def)

lemma nextPair_outsider:
  "nextPair ''P'' ''c'' [''A'', ''B''] [outsider_row] = Some (''X'', ''A'')"
proof -
  have o: "own_rows ''P'' ''c'' [outsider_row] = [outsider_row]"
    by (simp add: own_rows_def outsider_row_def)
  have c: "champion_of ''P'' ''c'' [outsider_row] = ''X''"
    by (simp add: champion_of_def pref_of_def toLowerCase_def lower_char_def outsider_row_def)
  have a: "appeared_of [outsider_row] = [''X'', ''Y'']"
    by (simp add: appeared_of_def set_add_def outsider_row_def)
  have u: "unseen_of ''P'' ''c'' [''A'', ''B''] [outsider_row] = [''A'', ''B'']"
    by (simp add: unseen_of_def a c)
  have l: "length (appeared_of [outsider_row]) = 2"
    by (simp add: a)
  have s: "string_of_nat 2 = ''2''"
    by (simp add: string_of_nat_digit digit_char_values)
  have d: "drawn_index ''P'' ''c'' [''A'', ''B''] [outsider_row] = 0"
    unfolding drawn_index_def l u s
    by (simp add: hash32_P_c_2 mulberry32_3728038486 floor_scaled_1959637203)
  show ?thesis
    using nextPair_steady [of "''P''" "[''A'', ''B'']" "''c''" "[outsider_row]"]
    by (simp add: o u c d)
qed

text \<open>
  Claim C10. Some input with own rows in history makes \<open>nextPair\<close> return a pair
  whose first element is not an eligible method; and in every pair that \<open>nextPair\<close>
  returns, the second element is an eligible method, and with own rows in history the
  first element is the champion derived from those rows.
\<close>

theorem champion_not_checked_for_eligibility:
  "(\<exists>pid cname methodIds history a b.
      own_rows pid cname history \<noteq> [] \<and>
      nextPair pid cname methodIds history = Some (a, b) \<and> a \<notin> set methodIds) \<and>
   (nextPair pid cname methodIds history = Some (a, b) \<longrightarrow>
      b \<in> set methodIds \<and>
      (own_rows pid cname history \<noteq> [] \<longrightarrow>
         a = champion_of pid cname (own_rows pid cname history)))"
proof -
  have "own_rows ''P'' ''c'' [outsider_row] \<noteq> []"
    by (simp add: own_rows_def outsider_row_def)
  moreover have "''X'' \<notin> set [''A'', ''B'']"
    by simp
  ultimately have ex: "\<exists>pid cname methodIds history a b.
      own_rows pid cname history \<noteq> [] \<and>
      nextPair pid cname methodIds history = Some (a, b) \<and> a \<notin> set methodIds"
    using nextPair_outsider by blast
  have all: "b \<in> set methodIds \<and>
      (own_rows pid cname history \<noteq> [] \<longrightarrow>
         a = champion_of pid cname (own_rows pid cname history))"
    if np: "nextPair pid cname methodIds history = Some (a, b)"
  proof (cases "own_rows pid cname history = []")
    case True
    then show ?thesis
      using nextPair_bootstrap_members(2) [OF True np] by simp
  next
    case False
    then show ?thesis
      using nextPair_steady_challenger(1,2) [OF False np] by simp
  qed
  from ex all show ?thesis
    by blast
qed

theorem champion_not_checked_for_eligibility_witness:
  "nextPair ''P'' ''c'' [''A'', ''B''] [outsider_row] = Some (''X'', ''A'') \<and>
   ''A'' \<in> set [''A'', ''B''] \<and> ''X'' \<notin> set [''A'', ''B''] \<and>
   ''X'' = champion_of ''P'' ''c'' (own_rows ''P'' ''c'' [outsider_row])"
proof -
  have o: "own_rows ''P'' ''c'' [outsider_row] \<noteq> []"
    by (simp add: own_rows_def outsider_row_def)
  have "''A'' \<in> set [''A'', ''B''] \<and>
        ''X'' = champion_of ''P'' ''c'' (own_rows ''P'' ''c'' [outsider_row])"
    using champion_not_checked_for_eligibility
      [of "''P''" "''c''" "[''A'', ''B'']" "[outsider_row]" "''X''" "''A''"]
      nextPair_outsider o
    by blast
  moreover have "''X'' \<notin> set [''A'', ''B'']"
    by simp
  ultimately show ?thesis
    using nextPair_outsider by blast
qed

section \<open>History reconciliation: the merged map\<close>

lemma compareRows_sortKey:
  "compareRows a b < 0 \<longleftrightarrow> sortKey a < sortKey b"
  "compareRows a b = 0 \<longleftrightarrow> sortKey a = sortKey b"
  "compareRows a b > 0 \<longleftrightarrow> sortKey a > sortKey b"
  by (auto simp: compareRows_def sortKey_def Let_def)

text \<open>An insertion-ordered map as a finite map: \<open>map_of\<close> reads it.\<close>

lemma map_of_map_set: "map_of (map_set k v m) = (map_of m)(k \<mapsto> v)"
  by (induction m) auto

lemma map_has_iff: "map_has m k \<longleftrightarrow> map_of m k \<noteq> None"
  by (simp add: map_has_def map_of_eq_None_iff)

lemma keys_map_set: "set (map fst (map_set k v m)) = insert k (set (map fst m))"
  by (induction m) auto

lemma distinct_map_set: "distinct (map fst m) \<Longrightarrow> distinct (map fst (map_set k v m))"
proof (induction m)
  case Nil
  then show ?case by simp
next
  case (Cons p m)
  then show ?case
    using keys_map_set [of k v m] by (cases "fst p = k") (auto simp del: set_map)
qed

lemma map_set_fresh: "k \<notin> set (map fst m) \<Longrightarrow> map_set k v m = m @ [(k, v)]"
  by (induction m) auto

lemma keyed_Nil: "keyed []"
  by (simp add: keyed_def)

lemma keyed_map_set: "keyed m \<Longrightarrow> keyed (map_set (historyKey r) r m)"
  by (induction m) (auto simp: keyed_def)

lemma keyed_add_remote: "keyed m \<Longrightarrow> keyed (add_remote m r)"
  by (simp add: add_remote_def keyed_map_set)

lemma keyed_add_local: "keyed m \<Longrightarrow> keyed (add_local m r)"
  by (simp add: add_local_def Let_def keyed_map_set)

lemma keyed_foldl_remote: "keyed m \<Longrightarrow> keyed (foldl add_remote m rs)"
  by (induction rs arbitrary: m) (simp_all add: keyed_add_remote)

lemma keyed_foldl_local: "keyed m \<Longrightarrow> keyed (foldl add_local m rs)"
  by (induction rs arbitrary: m) (simp_all add: keyed_add_local)

lemma distinct_add_remote: "distinct (map fst m) \<Longrightarrow> distinct (map fst (add_remote m r))"
  by (simp add: add_remote_def distinct_map_set)

lemma distinct_add_local: "distinct (map fst m) \<Longrightarrow> distinct (map fst (add_local m r))"
  by (simp add: add_local_def Let_def distinct_map_set)

lemma distinct_foldl_remote:
  "distinct (map fst m) \<Longrightarrow> distinct (map fst (foldl add_remote m rs))"
  by (induction rs arbitrary: m) (simp_all add: distinct_add_remote)

lemma distinct_foldl_local:
  "distinct (map fst m) \<Longrightarrow> distinct (map fst (foldl add_local m rs))"
  by (induction rs arbitrary: m) (simp_all add: distinct_add_local)

lemma keyed_keys: "keyed m \<Longrightarrow> map historyKey (map_values m) = map fst m"
  by (induction m) (auto simp: keyed_def map_values_def)

lemma find_append_option:
  "find P (xs @ ys) = (case find P xs of Some x \<Rightarrow> Some x | None \<Rightarrow> find P ys)"
  by (induction xs) auto

lemma map_of_add_remote:
  "map_of (add_remote m r) k = (if historyKey r = k then Some r else map_of m k)"
  by (simp add: add_remote_def map_of_map_set)

lemma map_of_foldl_remote:
  "map_of (foldl add_remote m rs) k =
     (case find (\<lambda>r. historyKey r = k) (rev rs) of Some r \<Rightarrow> Some r | None \<Rightarrow> map_of m k)"
proof (induction rs arbitrary: m)
  case Nil
  then show ?case by simp
next
  case (Cons r rs)
  have "map_of (foldl add_remote m (r # rs)) k = map_of (foldl add_remote (add_remote m r) rs) k"
    by simp
  also have "\<dots> = (case find (\<lambda>r. historyKey r = k) (rev rs) of
                      Some r \<Rightarrow> Some r | None \<Rightarrow> map_of (add_remote m r) k)"
    by (rule Cons.IH)
  also have "\<dots> = (case find (\<lambda>r. historyKey r = k) (rev (r # rs)) of
                      Some r \<Rightarrow> Some r | None \<Rightarrow> map_of m k)"
    by (simp add: find_append_option map_of_add_remote split: option.split)
  finally show ?case .
qed

lemma map_of_add_local:
  "map_of (add_local m r) k =
     (case map_of m k of Some v \<Rightarrow> Some v
      | None \<Rightarrow> if historyKey r = k then Some r else None)"
  by (auto simp: add_local_def Let_def map_has_iff map_of_map_set split: option.split)

lemma map_of_foldl_local:
  "map_of (foldl add_local m rs) k =
     (case map_of m k of Some v \<Rightarrow> Some v | None \<Rightarrow> find (\<lambda>r. historyKey r = k) rs)"
proof (induction rs arbitrary: m)
  case Nil
  then show ?case by (simp split: option.split)
next
  case (Cons r rs)
  have "map_of (foldl add_local m (r # rs)) k = map_of (foldl add_local (add_local m r) rs) k"
    by simp
  also have "\<dots> = (case map_of (add_local m r) k of
                      Some v \<Rightarrow> Some v | None \<Rightarrow> find (\<lambda>r. historyKey r = k) rs)"
    by (rule Cons.IH)
  also have "\<dots> = (case map_of m k of
                      Some v \<Rightarrow> Some v | None \<Rightarrow> find (\<lambda>r. historyKey r = k) (r # rs))"
    by (simp add: map_of_add_local split: option.split)
  finally show ?case .
qed

lemma find_keyed_values:
  "keyed m \<Longrightarrow> find (\<lambda>r. historyKey r = k) (map_values m) = map_of m k"
  by (induction m) (auto simp: keyed_def map_values_def)

lemma find_unique_key:
  "distinct (map g xs) \<Longrightarrow> find (\<lambda>r. g r = k) xs = Some r \<longleftrightarrow> r \<in> set xs \<and> g r = k"
  by (induction xs) auto

lemma find_same_set:
  assumes "distinct (map g xs)" and "distinct (map g ys)" and "set xs = set ys"
  shows "find (\<lambda>r. g r = k) xs = find (\<lambda>r. g r = k) ys"
proof (cases "find (\<lambda>r. g r = k) xs")
  case None
  then have "\<forall>r \<in> set ys. g r \<noteq> k"
    using assms(3) by (auto simp: find_None_iff)
  then have "find (\<lambda>r. g r = k) ys = None"
    by (simp add: find_None_iff)
  with None show ?thesis by simp
next
  case (Some r)
  then have "r \<in> set ys \<and> g r = k"
    using find_unique_key [OF assms(1), of k r] assms(3) by simp
  then have "find (\<lambda>r. g r = k) ys = Some r"
    using find_unique_key [OF assms(2), of k r] by simp
  with Some show ?thesis by simp
qed

lemma distinct_map_sort_key:
  "distinct (map g (sort_key f xs)) = distinct (map g xs)"
  by (simp add: distinct_map)

lemma mergeHistory_merged_map:
  "mergeHistory localRows remoteRows = sort_key sortKey (map_values (merged_map localRows remoteRows))"
  by (simp add: mergeHistory_def merged_map_def Let_def)

lemma keyed_merged_map: "keyed (merged_map localRows remoteRows)"
  unfolding merged_map_def by (intro keyed_foldl_local keyed_foldl_remote keyed_Nil)

lemma distinct_merged_map: "distinct (map fst (merged_map localRows remoteRows))"
  unfolding merged_map_def by (intro distinct_foldl_local distinct_foldl_remote) simp

lemma distinct_keys_mergeHistory: "distinct (map historyKey (mergeHistory localRows remoteRows))"
  unfolding mergeHistory_merged_map distinct_map_sort_key
  using keyed_keys [OF keyed_merged_map] distinct_merged_map by simp

lemma sorted_mergeHistory: "sorted (map sortKey (mergeHistory localRows remoteRows))"
  unfolding mergeHistory_merged_map by (rule sorted_sort_key)

lemma find_mergeHistory:
  "find (\<lambda>r. historyKey r = k) (mergeHistory localRows remoteRows) =
     (case find (\<lambda>r. historyKey r = k) (rev remoteRows) of
        Some r \<Rightarrow> Some r
      | None \<Rightarrow> find (\<lambda>r. historyKey r = k) localRows)"
proof -
  let ?m = "merged_map localRows remoteRows"
  have d: "distinct (map historyKey (map_values ?m))"
    using keyed_keys [OF keyed_merged_map] distinct_merged_map by simp
  have "find (\<lambda>r. historyKey r = k) (mergeHistory localRows remoteRows) =
        find (\<lambda>r. historyKey r = k) (map_values ?m)"
    unfolding mergeHistory_merged_map
    by (rule find_same_set) (simp_all add: d distinct_map_sort_key)
  also have "\<dots> = map_of ?m k"
    by (rule find_keyed_values) (rule keyed_merged_map)
  also have "\<dots> = (case find (\<lambda>r. historyKey r = k) (rev remoteRows) of
        Some r \<Rightarrow> Some r
      | None \<Rightarrow> find (\<lambda>r. historyKey r = k) localRows)"
    by (simp add: merged_map_def map_of_foldl_local map_of_foldl_remote split: option.split)
  finally show ?thesis .
qed

section \<open>Merge idempotence\<close>

lemma foldl_add_remote_fresh:
  "distinct (map historyKey rs) \<Longrightarrow> set (map historyKey rs) \<inter> set (map fst m) = {} \<Longrightarrow>
   foldl add_remote m rs = m @ map (\<lambda>r. (historyKey r, r)) rs"
proof (induction rs arbitrary: m)
  case Nil
  then show ?case by simp
next
  case (Cons r rs)
  have fresh: "historyKey r \<notin> set (map fst m)"
    using Cons.prems(2) by auto
  then have step: "add_remote m r = m @ [(historyKey r, r)]"
    by (simp add: add_remote_def map_set_fresh)
  have "foldl add_remote (m @ [(historyKey r, r)]) rs =
        (m @ [(historyKey r, r)]) @ map (\<lambda>r. (historyKey r, r)) rs"
    using Cons.prems by (intro Cons.IH) auto
  then show ?case
    by (simp add: step)
qed

lemma foldl_add_local_present:
  "set (map historyKey rs) \<subseteq> set (map fst m) \<Longrightarrow> foldl add_local m rs = m"
proof (induction rs)
  case Nil
  then show ?case by simp
next
  case (Cons r rs)
  then have "add_local m r = m"
    by (simp add: add_local_def map_has_def)
  with Cons show ?case by simp
qed

lemma mergeHistory_self:
  assumes "distinct (map historyKey rows)" and "sorted (map sortKey rows)"
  shows "mergeHistory rows rows = rows"
proof -
  let ?m = "map (\<lambda>r. (historyKey r, r)) rows"
  have 1: "foldl add_remote [] rows = ?m"
    using foldl_add_remote_fresh [OF assms(1), of "[]"] by simp
  have 2: "foldl add_local ?m rows = ?m"
    by (rule foldl_add_local_present) (simp add: comp_def)
  have 3: "map_values ?m = rows"
    by (simp add: map_values_def comp_def)
  show ?thesis
    unfolding mergeHistory_def Let_def 1 2 3 using assms(2) by (rule sort_key_id_if_sorted)
qed

text \<open>
  Claim C6. Merging the result of a merge with itself gives it back: the same rows in the
  same order.
\<close>

theorem mergeHistory_idempotent:
  "mergeHistory (mergeHistory localRows remoteRows) (mergeHistory localRows remoteRows) =
   mergeHistory localRows remoteRows"
  using distinct_keys_mergeHistory sorted_mergeHistory by (rule mergeHistory_self)

section \<open>Decimal numerals and separators\<close>

lemma split_at_first:
  "x \<notin> set xs \<Longrightarrow> x \<notin> set xs' \<Longrightarrow> xs @ x # ys = xs' @ x # ys' \<Longrightarrow> xs = xs' \<and> ys = ys'"
proof (induction xs arbitrary: xs')
  case Nil
  then show ?case by (cases xs') auto
next
  case (Cons a xs)
  then show ?case by (cases xs') auto
qed

lemma split_at_last:
  assumes "x \<notin> set ys" and "x \<notin> set ys'" and "xs @ x # ys = xs' @ x # ys'"
  shows "xs = xs' \<and> ys = ys'"
proof -
  have "rev ys @ x # rev xs = rev ys' @ x # rev xs'"
    using arg_cong [OF assms(3), of rev] by simp
  then have "rev ys = rev ys' \<and> rev xs = rev xs'"
    using assms(1,2) by (intro split_at_first) simp_all
  then show ?thesis by simp
qed

lemma of_char_digit_char:
  assumes "d < 10"
  shows "(of_char (digit_char d) :: nat) = 48 + d"
proof -
  have "(of_char (char_of (48 + d)) :: nat) = (48 + d) mod 256"
    by (rule of_char_of)
  also have "\<dots> = 48 + d"
    using assms by (intro mod_less) linarith
  finally show ?thesis
    by (simp only: digit_char_def)
qed

lemma is_digit_digit_char: "d < 10 \<Longrightarrow> is_digit (digit_char d)"
  by (simp add: is_digit_def of_char_digit_char)

lemma digit_char_inj:
  assumes "d < 10" and "e < 10" and "digit_char d = digit_char e"
  shows "d = e"
proof -
  have "48 + d = (of_char (digit_char d) :: nat)"
    using assms(1) by (rule of_char_digit_char [symmetric])
  also have "\<dots> = of_char (digit_char e)"
    by (simp only: assms(3))
  also have "\<dots> = 48 + e"
    using assms(2) by (rule of_char_digit_char)
  finally show ?thesis
    by (simp only: add_left_cancel)
qed

lemma string_of_nat_large:
  "\<not> n < 10 \<Longrightarrow> string_of_nat n = string_of_nat (n div 10) @ [digit_char (n mod 10)]"
  by (subst string_of_nat.simps) simp

lemma string_of_nat_not_Nil: "string_of_nat n \<noteq> []"
  by (cases "n < 10") (simp_all add: string_of_nat_digit string_of_nat_large)

lemma string_of_nat_digits: "c \<in> set (string_of_nat n) \<Longrightarrow> is_digit c"
proof (induction n rule: string_of_nat.induct)
  case (1 n)
  show ?case
  proof (cases "n < 10")
    case True
    then show ?thesis
      using "1.prems" by (simp add: string_of_nat_digit is_digit_digit_char)
  next
    case False
    then show ?thesis
      using "1.prems" "1.IH" by (auto simp: string_of_nat_large is_digit_digit_char)
  qed
qed

lemma string_of_nat_inj: "string_of_nat n = string_of_nat m \<Longrightarrow> n = m"
proof (induction n arbitrary: m rule: string_of_nat.induct)
  case (1 n)
  show ?case
  proof (cases "n < 10")
    case n: True
    show ?thesis
    proof (cases "m < 10")
      case True
      then show ?thesis
        using n "1.prems" by (simp add: string_of_nat_digit digit_char_inj)
    next
      case False
      then show ?thesis
        using n "1.prems" string_of_nat_not_Nil [of "m div 10"]
        by (simp add: string_of_nat_digit string_of_nat_large)
    qed
  next
    case n: False
    show ?thesis
    proof (cases "m < 10")
      case True
      then show ?thesis
        using n "1.prems" string_of_nat_not_Nil [of "n div 10"]
        by (simp add: string_of_nat_digit string_of_nat_large)
    next
      case False
      then have eq: "string_of_nat (n div 10) = string_of_nat (m div 10)"
        and d: "digit_char (n mod 10) = digit_char (m mod 10)"
        using n "1.prems" by (simp_all add: string_of_nat_large)
      have "n div 10 = m div 10"
        using n eq by (rule "1.IH")
      moreover have "n mod 10 = m mod 10"
        using d by (intro digit_char_inj) simp_all
      ultimately show ?thesis
        by (metis div_mult_mod_eq)
    qed
  qed
qed

lemma is_digit_not_minus: "is_digit c \<Longrightarrow> c \<noteq> CHR ''-''"
  by (auto simp: is_digit_def)

lemma is_digit_not_underscore: "is_digit c \<Longrightarrow> c \<noteq> CHR ''_''"
  by (auto simp: is_digit_def)

lemma is_digit_not_colon: "is_digit c \<Longrightarrow> c \<noteq> CHR '':''"
  by (auto simp: is_digit_def)

lemma string_of_int_chars: "c \<in> set (string_of_int i) \<Longrightarrow> is_digit c \<or> c = CHR ''-''"
  by (auto simp: string_of_int_def dest: string_of_nat_digits split: if_splits)

lemma string_of_int_no_underscore: "CHR ''_'' \<notin> set (string_of_int i)"
  using string_of_int_chars [of "CHR ''_''" i] is_digit_not_underscore by auto

lemma string_of_int_no_colon: "CHR '':'' \<notin> set (string_of_int i)"
  using string_of_int_chars [of "CHR '':''" i] is_digit_not_colon by auto

lemma string_of_int_not_Nil: "string_of_int i \<noteq> []"
  by (simp add: string_of_int_def string_of_nat_not_Nil)

lemma string_of_nat_no_minus: "string_of_nat n \<noteq> CHR ''-'' # s"
proof
  assume "string_of_nat n = CHR ''-'' # s"
  then have "CHR ''-'' \<in> set (string_of_nat n)"
    by simp
  then show False
    using string_of_nat_digits is_digit_not_minus by blast
qed

lemma string_of_int_inj: "string_of_int i = string_of_int j \<Longrightarrow> i = j"
proof (cases "i < 0"; cases "j < 0")
  assume "string_of_int i = string_of_int j" "i < 0" "j < 0"
  then have "nat (- i) = nat (- j)"
    by (simp add: string_of_int_def string_of_nat_inj)
  then show ?thesis
    using \<open>i < 0\<close> \<open>j < 0\<close> by simp
next
  assume "string_of_int i = string_of_int j" "i < 0" "\<not> j < 0"
  then have "string_of_nat (nat j) = CHR ''-'' # string_of_nat (nat (- i))"
    by (simp add: string_of_int_def)
  then show ?thesis
    using string_of_nat_no_minus by blast
next
  assume "string_of_int i = string_of_int j" "\<not> i < 0" "j < 0"
  then have "string_of_nat (nat i) = CHR ''-'' # string_of_nat (nat (- j))"
    by (simp add: string_of_int_def)
  then show ?thesis
    using string_of_nat_no_minus by blast
next
  assume "string_of_int i = string_of_int j" "\<not> i < 0" "\<not> j < 0"
  then have "nat i = nat j"
    by (simp add: string_of_int_def string_of_nat_inj)
  then show ?thesis
    using \<open>\<not> i < 0\<close> \<open>\<not> j < 0\<close> by simp
qed

section \<open>Merge authority and order\<close>

lemma find_SomeD: "find P xs = Some x \<Longrightarrow> x \<in> set xs \<and> P x"
  by (induction xs) (auto split: if_splits)

lemma find_exists: "x \<in> set xs \<Longrightarrow> P x \<Longrightarrow> \<exists>y. find P xs = Some y"
  by (cases "find P xs") (auto simp: find_None_iff)

lemma mergeHistory_remote_kept:
  assumes "r \<in> set remoteRows"
  shows "\<exists>r' \<in> set (mergeHistory localRows remoteRows).
           r' \<in> set remoteRows \<and> historyKey r' = historyKey r"
proof -
  let ?P = "\<lambda>x. historyKey x = historyKey r"
  obtain r' where f: "find ?P (rev remoteRows) = Some r'"
    using find_exists [of r "rev remoteRows" ?P] assms by auto
  then have r': "r' \<in> set remoteRows \<and> historyKey r' = historyKey r"
    using find_SomeD [OF f] by simp
  have "find ?P (mergeHistory localRows remoteRows) = Some r'"
    by (simp add: find_mergeHistory f)
  then have "r' \<in> set (mergeHistory localRows remoteRows)"
    using find_SomeD by fast
  with r' show ?thesis
    by blast
qed

lemma mergeHistory_origin:
  assumes "r \<in> set (mergeHistory localRows remoteRows)"
  shows "r \<in> set remoteRows \<or>
         (r \<in> set localRows \<and> historyKey r \<notin> historyKey ` set remoteRows)"
proof -
  let ?P = "\<lambda>x. historyKey x = historyKey r"
  have m: "find ?P (mergeHistory localRows remoteRows) = Some r"
    using find_unique_key [where g = historyKey and xs = "mergeHistory localRows remoteRows"
        and k = "historyKey r" and r = r] distinct_keys_mergeHistory assms by simp
  show ?thesis
  proof (cases "find ?P (rev remoteRows)")
    case None
    then have l: "find ?P localRows = Some r"
      using m by (simp add: find_mergeHistory)
    have "\<forall>x \<in> set remoteRows. historyKey x \<noteq> historyKey r"
      using None by (simp add: find_None_iff)
    then have "historyKey r \<notin> historyKey ` set remoteRows"
      by auto
    then show ?thesis
      using find_SomeD [OF l] by simp
  next
    case (Some r')
    then have "r' = r"
      using m by (simp add: find_mergeHistory)
    then show ?thesis
      using find_SomeD [OF Some] by simp
  qed
qed

lemma sorted_wrt_mergeHistory:
  "sorted_wrt (\<lambda>a b. or_empty (component a) < or_empty (component b) \<or>
                      (or_empty (component a) = or_empty (component b) \<and>
                       trial_or_zero a \<le> trial_or_zero b))
     (mergeHistory localRows remoteRows)"
proof -
  have "sorted_wrt (\<lambda>a b. sortKey a \<le> sortKey b) (mergeHistory localRows remoteRows)"
    using sorted_mergeHistory [of localRows remoteRows] by (simp only: sorted_map)
  then show ?thesis
    by (rule sorted_wrt_mono_rel [rotated]) (auto simp: sortKey_def)
qed

lemma historyKey_colon_free:
  assumes "participant_id r1 = Some p1" and "component r1 = Some c1"
    and "participant_id r2 = Some p2" and "component r2 = Some c2"
    and "CHR '':'' \<notin> set p1 \<union> set c1 \<union> set p2 \<union> set c2"
  shows "historyKey r1 = historyKey r2 \<longleftrightarrow>
         p1 = p2 \<and> c1 = c2 \<and> trial_id r1 = trial_id r2"
proof
  let ?t = "\<lambda>r. case trial_id r of None \<Rightarrow> [] | Some t \<Rightarrow> string_of_int t"
  assume "historyKey r1 = historyKey r2"
  then have k: "p1 @ CHR '':'' # (CHR '':'' # c1 @ CHR '':'' # CHR '':'' # ?t r1) =
                p2 @ CHR '':'' # (CHR '':'' # c2 @ CHR '':'' # CHR '':'' # ?t r2)"
    by (simp add: historyKey_def or_empty_def assms(1-4))
  have p: "p1 = p2" and rest: "c1 @ CHR '':'' # (CHR '':'' # ?t r1) = c2 @ CHR '':'' # (CHR '':'' # ?t r2)"
    using split_at_first [OF _ _ k] assms(5) by simp_all
  have c: "c1 = c2" and t: "?t r1 = ?t r2"
    using split_at_first [OF _ _ rest] assms(5) by simp_all
  have "trial_id r1 = trial_id r2"
    using t string_of_int_not_Nil string_of_int_inj
    by (cases "trial_id r1"; cases "trial_id r2") (auto simp: eq_commute [of "[]"])
  with p c show "p1 = p2 \<and> c1 = c2 \<and> trial_id r1 = trial_id r2"
    by simp
next
  assume "p1 = p2 \<and> c1 = c2 \<and> trial_id r1 = trial_id r2"
  then show "historyKey r1 = historyKey r2"
    by (simp add: historyKey_def assms(1-4))
qed

text \<open>
  Claim C5, with the key as the source builds it. \<open>mergeHistory\<close> keys a row by the
  string \<open>historyKey\<close>: participant id, component and trial number joined by
  \<^verbatim>\<open>::\<close>, an absent field read as the empty string. The result holds one row for
  each key; for a key \<open>k\<close> it is the last remote row with that key, and when no remote
  row has the key, the first local row with it. So every key of a remote row is
  represented by a remote row, and a row of the result comes from the remote rows, or
  from the local rows with a key that no remote row has. The result is sorted by
  component in lexicographic order, then by trial number, an absent component read as the
  empty string and an absent trial number as 0. For rows whose participant id and
  component are present and free of colons, two keys are equal exactly when the
  (participant id, component, trial number) tuples are.
\<close>

theorem mergeHistory_string_keys:
  "distinct (map historyKey (mergeHistory localRows remoteRows)) \<and>
   find (\<lambda>r. historyKey r = k) (mergeHistory localRows remoteRows) =
     (case find (\<lambda>r. historyKey r = k) (rev remoteRows) of
        Some r \<Rightarrow> Some r
      | None \<Rightarrow> find (\<lambda>r. historyKey r = k) localRows) \<and>
   (\<forall>r \<in> set remoteRows. \<exists>r' \<in> set (mergeHistory localRows remoteRows).
      r' \<in> set remoteRows \<and> historyKey r' = historyKey r) \<and>
   (\<forall>r \<in> set (mergeHistory localRows remoteRows).
      r \<in> set remoteRows \<or>
      (r \<in> set localRows \<and> historyKey r \<notin> historyKey ` set remoteRows)) \<and>
   sorted_wrt (\<lambda>a b. or_empty (component a) < or_empty (component b) \<or>
                      (or_empty (component a) = or_empty (component b) \<and>
                       trial_or_zero a \<le> trial_or_zero b))
     (mergeHistory localRows remoteRows) \<and>
   (participant_id r1 = Some p1 \<and> component r1 = Some c1 \<and>
    participant_id r2 = Some p2 \<and> component r2 = Some c2 \<and>
    CHR '':'' \<notin> set p1 \<union> set c1 \<union> set p2 \<union> set c2 \<longrightarrow>
      (historyKey r1 = historyKey r2 \<longleftrightarrow> p1 = p2 \<and> c1 = c2 \<and> trial_id r1 = trial_id r2))"
  using distinct_keys_mergeHistory [of localRows remoteRows]
    find_mergeHistory [of k localRows remoteRows]
    mergeHistory_remote_kept [of _ remoteRows localRows]
    mergeHistory_origin [of _ localRows remoteRows]
    sorted_wrt_mergeHistory [of localRows remoteRows]
    historyKey_colon_free [of r1 p1 c1 r2 p2 c2]
  by blast

lemma string_of_int_3: "string_of_int 3 = ''3''"
  by (simp add: string_of_int_def string_of_nat_digit digit_char_def char_of_eq_iff)

lemma vote_keys:
  "historyKey local_vote = ''P1::cautions::3''"
  "historyKey remote_vote = ''P1::cautions::3''"
  "historyKey colliding_local = ''P1::cbt::cautions::3''"
  "historyKey colliding_remote_first = ''P1::cbt::cautions::3''"
  "historyKey colliding_remote_second = ''P1::cbt::cautions::3''"
  by (simp_all add: historyKey_def or_empty_def string_of_int_3 local_vote_def remote_vote_def
      colliding_local_def colliding_remote_first_def colliding_remote_second_def)

theorem mergeHistory_string_keys_witness:
  "remote_vote \<in> set (mergeHistory [local_vote] [remote_vote]) \<and>
   local_vote \<notin> set (mergeHistory [local_vote] [remote_vote])"
proof -
  note t = mergeHistory_string_keys [of "[local_vote]" "[remote_vote]"]
  have ne: "local_vote \<noteq> remote_vote"
    by (simp add: local_vote_def remote_vote_def)
  have "\<exists>r' \<in> set (mergeHistory [local_vote] [remote_vote]).
          r' \<in> set [remote_vote] \<and> historyKey r' = historyKey remote_vote"
    using t by simp
  then have 1: "remote_vote \<in> set (mergeHistory [local_vote] [remote_vote])"
    by simp
  have "\<forall>r \<in> set (mergeHistory [local_vote] [remote_vote]).
          r \<in> set [remote_vote] \<or>
          (r \<in> set [local_vote] \<and> historyKey r \<notin> historyKey ` set [remote_vote])"
    using t by blast
  then have 2: "local_vote \<notin> set (mergeHistory [local_vote] [remote_vote])"
    using ne by (auto simp: vote_keys)
  from 1 2 show ?thesis
    by simp
qed

text \<open>
  Claim C5 as stated fails, since the key is not the tuple:
  \<open>colliding_local\<close> and \<open>colliding_remote_first\<close>
  have the same participant id, component and trial number, so that tuple is present in
  both inputs, but the result holds neither of them; the later remote row
  \<open>colliding_remote_second\<close>, of another participant, has the same key string and
  replaces the first.
\<close>

theorem mergeHistory_tuple_key_counterexample:
  "participant_id colliding_local = participant_id colliding_remote_first \<and>
   component colliding_local = component colliding_remote_first \<and>
   trial_id colliding_local = trial_id colliding_remote_first \<and>
   participant_id colliding_remote_second \<noteq> participant_id colliding_remote_first \<and>
   mergeHistory [colliding_local] [colliding_remote_first, colliding_remote_second] =
     [colliding_remote_second]"
proof -
  have "mergeHistory [colliding_local] [colliding_remote_first, colliding_remote_second] =
     [colliding_remote_second]"
    by (simp add: mergeHistory_def add_remote_def add_local_def map_has_def map_values_def
        vote_keys)
  then show ?thesis
    by (simp add: colliding_local_def colliding_remote_first_def colliding_remote_second_def)
qed

section \<open>Vote identifier format\<close>

lemma trim_decomposition:
  "\<exists>a b. s = a @ trim s @ b \<and> (\<forall>x \<in> set a. is_space x) \<and> (\<forall>x \<in> set b. is_space x)"
proof -
  let ?a = "takeWhile is_space s"
  let ?t = "dropWhile is_space s"
  let ?b = "rev (takeWhile is_space (rev ?t))"
  have "rev ?t = takeWhile is_space (rev ?t) @ dropWhile is_space (rev ?t)"
    by simp
  then have "?t = rev (dropWhile is_space (rev ?t)) @ ?b"
    by (metis rev_append rev_rev_ident)
  then have "?t = trim s @ ?b"
    by (simp add: trim_def)
  then have "s = ?a @ trim s @ ?b"
    by (metis takeWhile_dropWhile_id)
  moreover have "\<forall>x \<in> set ?a. is_space x"
    by (auto dest: set_takeWhileD)
  moreover have "\<forall>x \<in> set ?b. is_space x"
    by (auto dest: set_takeWhileD)
  ultimately show ?thesis
    by blast
qed

lemma drop_trailing_hd:
  assumes "t \<noteq> []" and "\<not> P (hd t)"
  shows "rev (dropWhile P (rev t)) \<noteq> [] \<and> hd (rev (dropWhile P (rev t))) = hd t"
proof -
  obtain x t' where t: "t = x # t'"
    using assms(1) by (cases t) auto
  have "dropWhile P (rev t' @ x # []) = dropWhile P (rev t') @ x # []"
    using assms(2) t by (intro dropWhile_append3) simp
  then have "rev (dropWhile P (rev t)) = x # rev (dropWhile P (rev t'))"
    by (simp add: t)
  then show ?thesis
    by (simp add: t)
qed

lemma trim_ends:
  assumes "trim s \<noteq> []"
  shows "\<not> is_space (hd (trim s)) \<and> \<not> is_space (last (trim s))"
proof -
  let ?t = "dropWhile is_space s"
  let ?u = "dropWhile is_space (rev ?t)"
  have u: "?u \<noteq> []"
    using assms by (simp only: trim_def rev_is_Nil_conv not_False_eq_True)
  have t: "?t \<noteq> []"
  proof
    assume "?t = []"
    then have "?u = []"
      by (simp only: rev.simps dropWhile.simps)
    with u show False
      by simp
  qed
  have h: "\<not> is_space (hd ?t)"
    using t by (rule hd_dropWhile)
  have "hd (trim s) = hd ?t"
    using drop_trailing_hd [of ?t is_space, OF t h] by (simp only: trim_def)
  moreover have "last (trim s) = hd ?u"
    using u by (simp only: trim_def last_rev)
  moreover have "\<not> is_space (hd ?u)"
    using u by (rule hd_dropWhile)
  ultimately show ?thesis
    using h by simp
qed

lemma replace_spaces_no_space:
  "\<forall>x \<in> set u. \<not> is_space x \<Longrightarrow> replace_spaces (u @ s) = u @ replace_spaces s"
  by (induction u) simp_all

lemma replace_spaces_run:
  assumes "w \<noteq> []" and "\<forall>x \<in> set w. is_space x" and "v = [] \<or> \<not> is_space (hd v)"
  shows "replace_spaces (w @ v) = CHR ''_'' # replace_spaces v"
proof -
  obtain x w' where w: "w = x # w'"
    using assms(1) by (cases w) auto
  have "dropWhile is_space (w' @ v) = dropWhile is_space v"
    using assms(2) w by (intro dropWhile_append2) simp
  also have "\<dots> = v"
    using assms(3) by (cases v) auto
  finally show ?thesis
    using assms(2) w by simp
qed

lemma sanitize_chars: "c \<in> set (sanitize s) \<Longrightarrow> id_char c"
  by (simp add: sanitize_def)

lemma makeVoteId_inj:
  assumes "makeVoteId pid c1 t1 = makeVoteId pid c2 t2"
  shows "sanitize c1 = sanitize c2 \<and> t1 = t2"
proof -
  have "(sanitize c1 @ ''_'') @ CHR ''_'' # string_of_int t1 =
        (sanitize c2 @ ''_'') @ CHR ''_'' # string_of_int t2"
    using assms by (simp add: makeVoteId_def)
  then have "sanitize c1 @ ''_'' = sanitize c2 @ ''_'' \<and> string_of_int t1 = string_of_int t2"
    by (intro split_at_last) (simp_all add: string_of_int_no_underscore)
  then show ?thesis
    by (simp add: string_of_int_inj)
qed

lemma id_char_class:
  "id_char c \<longleftrightarrow>
   c \<in> set ''abcdefghijklmnopqrstuvwxyzABCDEFGHIJKLMNOPQRSTUVWXYZ0123456789_-''"
proof (cases c)
  case (Char b0 b1 b2 b3 b4 b5 b6 b7)
  show ?thesis
    unfolding Char id_char_def Let_def
    by (cases b0; cases b1; cases b2; cases b3; cases b4; cases b5; cases b6; cases b7)
       simp_all
qed

lemma makeVoteId_example:
  "makeVoteId ''P00001'' ''Action Space!'' 4 = ''P00001__Action_Space__4''"
proof -
  have t: "trim ''Action Space!'' = ''Action Space!''"
    by (simp add: trim_def is_space_def)
  have r: "replace_spaces ''Action Space!'' = ''Action_Space!''"
    by (simp add: is_space_def)
  have f: "filter id_char ''Action_Space!'' = ''Action_Space''"
    by (simp add: id_char_def)
  have n: "string_of_int 4 = ''4''"
    by (simp add: string_of_int_def string_of_nat_digit digit_char_def char_of_eq_iff)
  show ?thesis
    unfolding makeVoteId_def sanitize_def Let_def t r f n by simp
qed

text \<open>
  Claim C7. The vote id is the participant id, the sanitized component and the trial
  number in decimal, joined by double underscores, and
  \<^verbatim>\<open>makeVoteId("P00001", "Action Space!", 4)\<close> is \<^verbatim>\<open>P00001__Action_Space__4\<close>. The
  component is sanitized in three steps. Trimming removes white space at both ends and
  nothing else: the trimmed string neither starts nor ends with white space. Collapsing
  leaves a stretch without white space as it is and turns a maximal run of white space
  into one underscore. Filtering keeps exactly the characters of
  \<^verbatim>\<open>[A-Za-z0-9_-]\<close>. For a fixed participant id, equal vote ids have equal sanitized
  components and equal trial numbers.
\<close>

theorem makeVoteId_format:
  "makeVoteId ''P00001'' ''Action Space!'' 4 = ''P00001__Action_Space__4'' \<and>
   makeVoteId pid cname trialId =
     pid @ ''__'' @ filter id_char (replace_spaces (trim cname)) @ ''__'' @
     string_of_int trialId \<and>
   sanitize cname = filter id_char (replace_spaces (trim cname)) \<and>
   (\<exists>a b. cname = a @ trim cname @ b \<and>
          (\<forall>x \<in> set a. is_space x) \<and> (\<forall>x \<in> set b. is_space x)) \<and>
   (trim cname \<noteq> [] \<longrightarrow>
      \<not> is_space (hd (trim cname)) \<and> \<not> is_space (last (trim cname))) \<and>
   ((\<forall>x \<in> set u. \<not> is_space x) \<longrightarrow> replace_spaces (u @ s) = u @ replace_spaces s) \<and>
   (w \<noteq> [] \<and> (\<forall>x \<in> set w. is_space x) \<and> (v = [] \<or> \<not> is_space (hd v)) \<longrightarrow>
      replace_spaces (w @ v) = CHR ''_'' # replace_spaces v) \<and>
   (id_char c \<longleftrightarrow>
      c \<in> set ''abcdefghijklmnopqrstuvwxyzABCDEFGHIJKLMNOPQRSTUVWXYZ0123456789_-'') \<and>
   (makeVoteId pid c1 t1 = makeVoteId pid c2 t2 \<longrightarrow> sanitize c1 = sanitize c2 \<and> t1 = t2)"
proof -
  have 0: "makeVoteId ''P00001'' ''Action Space!'' 4 = ''P00001__Action_Space__4''"
    by (rule makeVoteId_example)
  have 1: "makeVoteId pid cname trialId =
     pid @ ''__'' @ filter id_char (replace_spaces (trim cname)) @ ''__'' @
     string_of_int trialId"
    by (simp add: makeVoteId_def sanitize_def)
  have 2: "sanitize cname = filter id_char (replace_spaces (trim cname))"
    by (simp add: sanitize_def)
  have 3: "\<exists>a b. cname = a @ trim cname @ b \<and>
          (\<forall>x \<in> set a. is_space x) \<and> (\<forall>x \<in> set b. is_space x)"
    by (rule trim_decomposition)
  have 4: "trim cname \<noteq> [] \<longrightarrow>
      \<not> is_space (hd (trim cname)) \<and> \<not> is_space (last (trim cname))"
    using trim_ends [of cname] by blast
  have 5: "(\<forall>x \<in> set u. \<not> is_space x) \<longrightarrow> replace_spaces (u @ s) = u @ replace_spaces s"
    using replace_spaces_no_space [of u s] by blast
  have 6: "w \<noteq> [] \<and> (\<forall>x \<in> set w. is_space x) \<and> (v = [] \<or> \<not> is_space (hd v)) \<longrightarrow>
      replace_spaces (w @ v) = CHR ''_'' # replace_spaces v"
    using replace_spaces_run [of w v] by blast
  have 7: "id_char c \<longleftrightarrow>
      c \<in> set ''abcdefghijklmnopqrstuvwxyzABCDEFGHIJKLMNOPQRSTUVWXYZ0123456789_-''"
    by (rule id_char_class)
  have 8: "makeVoteId pid c1 t1 = makeVoteId pid c2 t2 \<longrightarrow> sanitize c1 = sanitize c2 \<and> t1 = t2"
    using makeVoteId_inj [of pid c1 t1 c2 t2] by blast
  show ?thesis
    by (intro conjI; fact)
qed

lemma sanitize_examples:
  "sanitize ''a b'' = ''a_b''" "sanitize '' a   b '' = ''a_b''"
proof -
  have "trim ''a b'' = ''a b''" "trim '' a   b '' = ''a   b''"
    by (simp_all add: trim_def is_space_def)
  moreover have "replace_spaces ''a b'' = ''a_b''" "replace_spaces ''a   b'' = ''a_b''"
    by (simp_all add: is_space_def)
  moreover have "filter id_char ''a_b'' = ''a_b''"
    by (simp add: id_char_def)
  ultimately show "sanitize ''a b'' = ''a_b''" "sanitize '' a   b '' = ''a_b''"
    by (simp_all only: sanitize_def)
qed

theorem makeVoteId_format_witness:
  "makeVoteId ''P1'' ''a b'' 7 = makeVoteId ''P1'' '' a   b '' 7 \<and>
   sanitize ''a b'' = sanitize '' a   b '' \<and>
   replace_spaces (''   '' @ ''b'') = ''_b'' \<and>
   makeVoteId ''P1'' ''a b'' 7 \<noteq> makeVoteId ''P1'' ''a b'' 8"
proof -
  have e: "makeVoteId ''P1'' ''a b'' 7 = makeVoteId ''P1'' '' a   b '' 7"
    by (simp add: makeVoteId_def sanitize_examples)
  have 1: "sanitize ''a b'' = sanitize '' a   b ''"
    using makeVoteId_format [of "''P1''" "''a b''" 7 "''''" "''''" "''''" "''''" "CHR ''a''"
        "''a b''" 7 "'' a   b ''" 7] e
    by blast
  have "replace_spaces (''   '' @ ''b'') = CHR ''_'' # replace_spaces ''b''"
    using makeVoteId_format [of "''P1''" "''a b''" 7 "''''" "''''" "''   ''" "''b''" "CHR ''a''"
        "''a b''" 7 "'' a   b ''" 7]
    by (simp add: is_space_def)
  then have 2: "replace_spaces (''   '' @ ''b'') = ''_b''"
    by (simp add: is_space_def)
  have 3: "makeVoteId ''P1'' ''a b'' 7 \<noteq> makeVoteId ''P1'' ''a b'' 8"
    using makeVoteId_format [of "''P1''" "''a b''" 7 "''''" "''''" "''''" "''''" "CHR ''a''"
        "''a b''" 7 "''a b''" 8]
    by auto
  from e 1 2 3 show ?thesis
    by simp
qed

section \<open>Tournament length\<close>

lemma length_own_rows_snoc:
  "participant_id r = Some pid \<Longrightarrow> component r = Some cname \<Longrightarrow>
   length (own_rows pid cname (history @ [r])) = length (own_rows pid cname history) + 1"
  by (simp add: own_rows_def)

lemma appeared_in_snoc:
  "participant_id r = Some pid \<Longrightarrow> component r = Some cname \<Longrightarrow>
   appeared_in pid cname (history @ [r]) =
     insert (left_method_id r) (insert (right_method_id r) (appeared_in pid cname history))"
  by (auto simp: appeared_in_def set_appeared_of set_own_rows)

lemma appeared_in_empty:
  "own_rows pid cname history = [] \<Longrightarrow> appeared_in pid cname history = {}"
  by (simp add: appeared_in_def appeared_of_def)

lemma finite_appeared_in: "finite (appeared_in pid cname history)"
  by (simp add: appeared_in_def)

lemma tournament_inv_start:
  "own_rows pid cname history = [] \<Longrightarrow> tournament_inv pid cname methodIds history"
  by (simp add: tournament_inv_def appeared_in_empty)

lemma tournament_inv_step:
  assumes inv: "tournament_inv pid cname methodIds history"
    and d: "distinct methodIds"
    and np: "nextPair pid cname methodIds history = Some pair"
    and v: "is_vote_for pid cname pair r"
  shows "tournament_inv pid cname methodIds (history @ [r])"
proof -
  obtain a b where pair: "pair = (a, b)"
    by (cases pair)
  have own: "participant_id r = Some pid" "component r = Some cname"
    and lr: "left_method_id r = a" "right_method_id r = b"
    using v by (simp_all add: is_vote_for_def pair)
  have ap: "appeared_in pid cname (history @ [r]) = insert a (insert b (appeared_in pid cname history))"
    using appeared_in_snoc [OF own] by (simp add: lr)
  have len: "length (own_rows pid cname (history @ [r])) = length (own_rows pid cname history) + 1"
    using own by (rule length_own_rows_snoc)
  have np': "nextPair pid cname methodIds history = Some (a, b)"
    using np by (simp add: pair)
  show ?thesis
  proof (cases "own_rows pid cname history = []")
    case True
    have "a \<in> set methodIds" "b \<in> set methodIds" "a \<noteq> b"
      using nextPair_bootstrap_members [OF True np'] d by simp_all
    then show ?thesis
      using True by (simp add: tournament_inv_def ap len appeared_in_empty)
  next
    case False
    have a: "a = champion_of pid cname (own_rows pid cname history)"
      and b: "b \<in> set methodIds" "b \<notin> appeared_in pid cname history"
      using nextPair_steady_challenger [OF False np'] by (simp_all add: appeared_in_def)
    have "a \<in> appeared_in pid cname history"
      unfolding a appeared_in_def using False by (rule champion_appeared)
    then have "insert a (insert b (appeared_in pid cname history)) =
               insert b (appeared_in pid cname history)"
      by auto
    then show ?thesis
      using inv False b finite_appeared_in [of pid cname history]
      by (simp add: tournament_inv_def ap len)
  qed
qed

lemma played_inv:
  assumes "distinct methodIds"
  shows "tournament_inv pid cname methodIds history \<Longrightarrow>
         played pid cname methodIds history votes \<Longrightarrow>
         tournament_inv pid cname methodIds (history @ votes) \<and>
         length (own_rows pid cname (history @ votes)) =
           length (own_rows pid cname history) + length votes"
proof (induction votes arbitrary: history)
  case Nil
  then show ?case by simp
next
  case (Cons r votes)
  from Cons.prems(2) obtain pair where np: "nextPair pid cname methodIds history = Some pair"
    and v: "is_vote_for pid cname pair r"
    and rest: "played pid cname methodIds (history @ [r]) votes"
    by (auto split: option.splits)
  have inv': "tournament_inv pid cname methodIds (history @ [r])"
    using Cons.prems(1) assms np v by (rule tournament_inv_step)
  have len: "length (own_rows pid cname (history @ [r])) = length (own_rows pid cname history) + 1"
    using v by (intro length_own_rows_snoc) (simp_all add: is_vote_for_def)
  show ?case
    using Cons.IH [OF inv' rest] len by simp
qed

lemma nextPair_None_iff:
  assumes "pid \<noteq> []" and "2 \<le> length methodIds" and "distinct methodIds"
    and "tournament_inv pid cname methodIds history"
  shows "nextPair pid cname methodIds history = None \<longleftrightarrow>
         length (own_rows pid cname history) = length methodIds - 1"
proof (cases "own_rows pid cname history = []")
  case True
  then have "nextPair pid cname methodIds history \<noteq> None"
    using assms(1,2) by (simp add: nextPair_def Let_def)
  then show ?thesis
    using True assms(2) by simp
next
  case False
  let ?rows = "own_rows pid cname history"
  let ?A = "appeared_in pid cname history"
  have sub: "?A \<subseteq> set methodIds" and card: "card ?A = length ?rows + 1"
    using assms(4) False by (simp_all add: tournament_inv_def)
  have champ: "champion_of pid cname ?rows \<in> ?A"
    unfolding appeared_in_def using False by (rule champion_appeared)
  have "nextPair pid cname methodIds history = None \<longleftrightarrow> unseen_of pid cname methodIds ?rows = []"
    using nextPair_steady [OF assms(1,2) False] by simp
  also have "\<dots> \<longleftrightarrow> set methodIds \<subseteq> ?A"
    using champ by (auto simp: unseen_of_def appeared_in_def filter_empty_conv)
  also have "\<dots> \<longleftrightarrow> card ?A = card (set methodIds)"
    using sub card_subset_eq [of "set methodIds" ?A] by auto
  also have "\<dots> \<longleftrightarrow> length ?rows = length methodIds - 1"
    using card assms(2,3) by (auto simp: distinct_card)
  finally show ?thesis .
qed

lemma tournament_inv_bound:
  assumes "distinct methodIds" and "tournament_inv pid cname methodIds history"
    and "2 \<le> length methodIds"
  shows "length (own_rows pid cname history) \<le> length methodIds - 1"
proof (cases "own_rows pid cname history = []")
  case True
  then show ?thesis by simp
next
  case False
  then have "card (appeared_in pid cname history) = length (own_rows pid cname history) + 1"
    and "appeared_in pid cname history \<subseteq> set methodIds"
    using assms(2) by (simp_all add: tournament_inv_def)
  then have "length (own_rows pid cname history) + 1 \<le> card (set methodIds)"
    using card_mono [of "set methodIds" "appeared_in pid cname history"] by simp
  then show ?thesis
    using assms(1) by (simp add: distinct_card)
qed

text \<open>
  Claim C1. Let the participant id be non-empty, the eligible methods distinct and at
  least two, and history without a row of this participant and component. However the
  tournament is driven (each vote a row on the pair just returned, with any trial number
  and any outcome, appended to history), it has at most \<open>N - 1\<close> votes; after fewer
  than \<open>N - 1\<close> votes \<open>nextPair\<close> returns a pair, and after \<open>N - 1\<close> votes it
  returns \<^verbatim>\<open>null\<close>. So the first \<open>N - 1\<close> calls return a pair and call \<open>N\<close>
  returns \<^verbatim>\<open>null\<close>.
\<close>

theorem tournament_length:
  assumes "pid \<noteq> []" and "distinct methodIds" and "2 \<le> length methodIds"
    and "own_rows pid cname history = []"
    and "played pid cname methodIds history votes"
  shows "length votes \<le> length methodIds - 1 \<and>
         (length votes < length methodIds - 1 \<longrightarrow>
            nextPair pid cname methodIds (history @ votes) \<noteq> None) \<and>
         (length votes = length methodIds - 1 \<longrightarrow>
            nextPair pid cname methodIds (history @ votes) = None)"
proof -
  have inv0: "tournament_inv pid cname methodIds history"
    using assms(4) by (rule tournament_inv_start)
  have inv: "tournament_inv pid cname methodIds (history @ votes)"
    and len: "length (own_rows pid cname (history @ votes)) = length votes"
    using played_inv [OF assms(2) inv0 assms(5)] assms(4) by simp_all
  have "length votes \<le> length methodIds - 1"
    using tournament_inv_bound [OF assms(2) inv assms(3)] len by simp
  moreover have "nextPair pid cname methodIds (history @ votes) = None \<longleftrightarrow>
                 length votes = length methodIds - 1"
    using nextPair_None_iff [OF assms(1,3,2) inv] len by simp
  ultimately show ?thesis
    by auto
qed

lemma nextPair_ABC_start: "nextPair ''P'' ''c'' [''A'', ''B'', ''C''] [] = Some (''A'', ''C'')"
  by (simp add: nextPair_def own_rows_def shuffle_ABC_P_c)

lemma nextPair_ABC_second:
  "nextPair ''P'' ''c'' [''A'', ''B'', ''C''] [first_vote] = Some (''C'', ''B'')"
proof -
  have o: "own_rows ''P'' ''c'' [first_vote] = [first_vote]"
    by (simp add: own_rows_def first_vote_def)
  have c: "champion_of ''P'' ''c'' [first_vote] = ''C''"
    by (simp add: champion_of_def pref_of_def toLowerCase_def lower_char_def first_vote_def)
  have a: "appeared_of [first_vote] = [''A'', ''C'']"
    by (simp add: appeared_of_def set_add_def first_vote_def)
  have u: "unseen_of ''P'' ''c'' [''A'', ''B'', ''C''] [first_vote] = [''B'']"
    by (simp add: unseen_of_def a c)
  show ?thesis
    using nextPair_steady [of "''P''" "[''A'', ''B'', ''C'']" "''c''" "[first_vote]"]
    by (simp add: o u c drawn_index_def floor_scaled_one)
qed

lemma played_ABC: "played ''P'' ''c'' [''A'', ''B'', ''C''] [] [first_vote, second_vote]"
proof -
  have 1: "is_vote_for ''P'' ''c'' (''A'', ''C'') first_vote"
    by (simp add: is_vote_for_def first_vote_def)
  have 2: "is_vote_for ''P'' ''c'' (''C'', ''B'') second_vote"
    by (simp add: is_vote_for_def second_vote_def)
  show ?thesis
    by (simp add: nextPair_ABC_start nextPair_ABC_second 1 2)
qed

theorem tournament_length_witness:
  "played ''P'' ''c'' [''A'', ''B'', ''C''] [] [first_vote, second_vote] \<and>
   nextPair ''P'' ''c'' [''A'', ''B'', ''C''] [] \<noteq> None \<and>
   nextPair ''P'' ''c'' [''A'', ''B'', ''C''] [first_vote] \<noteq> None \<and>
   nextPair ''P'' ''c'' [''A'', ''B'', ''C''] [first_vote, second_vote] = None"
proof -
  have p: "''P'' \<noteq> []" and d: "distinct [''A'', ''B'', ''C'']"
    and n: "2 \<le> length [''A'', ''B'', ''C'']" and o: "own_rows ''P'' ''c'' [] = []"
    by (simp_all add: own_rows_def)
  have p1: "played ''P'' ''c'' [''A'', ''B'', ''C''] [] [first_vote]"
    using played_ABC by (simp add: nextPair_ABC_start split: option.splits)
  have p0: "played ''P'' ''c'' [''A'', ''B'', ''C''] [] []"
    by simp
  have 0: "nextPair ''P'' ''c'' [''A'', ''B'', ''C''] [] \<noteq> None"
    using tournament_length [OF p d n o p0] by simp
  have 1: "nextPair ''P'' ''c'' [''A'', ''B'', ''C''] [first_vote] \<noteq> None"
    using tournament_length [OF p d n o p1] by simp
  have 2: "nextPair ''P'' ''c'' [''A'', ''B'', ''C''] [first_vote, second_vote] = None"
    using tournament_length [OF p d n o played_ABC] by simp
  from played_ABC 0 1 2 show ?thesis
    by simp
qed

section \<open>Determinism of the calls\<close>

lemma untouched_refl: "untouched s s"
  by (simp add: untouched_def)

lemma untouched_trans: "untouched s s' \<Longrightarrow> untouched s' s'' \<Longrightarrow> untouched s s''"
  by (auto simp: untouched_def)

lemma untouched_new_strings: "untouched s (snd (new_strings xs s))"
  by (simp add: untouched_def new_strings_def)

lemma untouched_new_rows: "untouched s (snd (new_rows xs s))"
  by (simp add: untouched_def new_rows_def)

lemma untouched_new_generator: "untouched s (snd (new_generator seed s))"
  by (simp add: untouched_def new_generator_def)

lemma draw_new_generator:
  "draw (fst (new_generator seed s)) (snd (new_generator seed s)) =
     (fst (mulberry32 seed),
      s\<lparr>seed_at := (seed_at s)(seed_top s := snd (mulberry32 seed)),
        seed_top := Suc (seed_top s)\<rparr>)"
  by (simp add: draw_def new_generator_def case_prod_beta)

lemma untouched_draw_new_generator:
  "untouched s (snd (draw (fst (new_generator seed s)) (snd (new_generator seed s))))"
  by (simp add: draw_new_generator untouched_def)

lemma shuffle_loop_st_eq:
  "shuffle_loop_st n a g s =
     s\<lparr>strings_at := (strings_at s)(a := shuffle_loop n (strings_at s a) (seed_at s g)),
       seed_at := seed_at (shuffle_loop_st n a g s)\<rparr> \<and>
   (\<forall>c. c \<noteq> g \<longrightarrow> seed_at (shuffle_loop_st n a g s) c = seed_at s c)"
proof (induction n arbitrary: s)
  case 0
  then show ?case by simp
next
  case (Suc n)
  obtain k seed' where m: "mulberry32 (seed_at s g) = (k, seed')"
    by (cases "mulberry32 (seed_at s g)")
  let ?s2 = "s\<lparr>seed_at := (seed_at s)(g := seed'),
               strings_at := (strings_at s)(a := swap (strings_at s a) (Suc n)
                   (floor_scaled k (Suc n + 1)))\<rparr>"
  have step: "shuffle_loop_st (Suc n) a g s = shuffle_loop_st n a g ?s2"
    by (simp add: draw_def m Let_def)
  have ih: "shuffle_loop_st n a g ?s2 =
     ?s2\<lparr>strings_at := (strings_at ?s2)(a := shuffle_loop n (strings_at ?s2 a) (seed_at ?s2 g)),
       seed_at := seed_at (shuffle_loop_st n a g ?s2)\<rparr>"
    and fr: "\<forall>c. c \<noteq> g \<longrightarrow> seed_at (shuffle_loop_st n a g ?s2) c = seed_at ?s2 c"
    using Suc.IH [of ?s2] by blast+
  have pure: "shuffle_loop (Suc n) (strings_at s a) (seed_at s g) =
        shuffle_loop n (swap (strings_at s a) (Suc n) (floor_scaled k (Suc n + 1))) seed'"
    by (simp add: m Let_def)
  show ?case
    unfolding step pure
    by (subst ih, use fr in simp)
qed

lemma stableShuffle_st_result:
  "strings_at (snd (stableShuffle_st arr seedStr s)) (fst (stableShuffle_st arr seedStr s)) =
     stableShuffle (strings_at s arr) seedStr"
proof -
  let ?s2 = "s\<lparr>strings_at := (strings_at s)(strings_top s := strings_at s arr),
               strings_top := Suc (strings_top s),
               seed_at := (seed_at s)(seed_top s := hash32 seedStr),
               seed_top := Suc (seed_top s)\<rparr>"
  have "stableShuffle_st arr seedStr s =
          (strings_top s,
           shuffle_loop_st (length (strings_at s arr) - 1) (strings_top s) (seed_top s) ?s2)"
    by (simp add: stableShuffle_st_def new_strings_def new_generator_def Let_def)
  moreover have "strings_at
         (shuffle_loop_st (length (strings_at s arr) - 1) (strings_top s) (seed_top s) ?s2)
         (strings_top s) =
       shuffle_loop (length (strings_at s arr) - 1) (strings_at s arr) (hash32 seedStr)"
    by (subst shuffle_loop_st_eq [THEN conjunct1]) simp
  ultimately show ?thesis
    by (simp add: stableShuffle_def)
qed

lemma untouched_stableShuffle_st: "untouched s (snd (stableShuffle_st arr seedStr s))"
proof -
  let ?s2 = "s\<lparr>strings_at := (strings_at s)(strings_top s := strings_at s arr),
               strings_top := Suc (strings_top s),
               seed_at := (seed_at s)(seed_top s := hash32 seedStr),
               seed_top := Suc (seed_top s)\<rparr>"
  let ?n = "length (strings_at s arr) - 1"
  let ?r = "shuffle_loop_st ?n (strings_top s) (seed_top s) ?s2"
  have r: "snd (stableShuffle_st arr seedStr s) = ?r"
    by (simp add: stableShuffle_st_def new_strings_def new_generator_def Let_def)
  have eq: "?r = ?s2\<lparr>strings_at := (strings_at ?s2)(strings_top s :=
                       shuffle_loop ?n (strings_at ?s2 (strings_top s)) (seed_at ?s2 (seed_top s))),
                   seed_at := seed_at ?r\<rparr>"
    and fr: "\<forall>c. c \<noteq> seed_top s \<longrightarrow> seed_at ?r c = seed_at ?s2 c"
    using shuffle_loop_st_eq [of ?n "strings_top s" "seed_top s" ?s2] by blast+
  have "untouched s ?r"
    by (subst eq) (use fr in \<open>simp add: untouched_def\<close>)
  then show ?thesis
    by (simp only: r)
qed

lemma resolveTiePreferred_st_result:
  "fst (resolveTiePreferred_st pid cname trialId leftId rightId s) =
     resolveTiePreferred pid cname trialId leftId rightId"
  by (simp add: resolveTiePreferred_st_def resolveTiePreferred_def Let_def case_prod_beta
      draw_def new_generator_def)

lemma untouched_resolveTiePreferred_st:
  "untouched s (snd (resolveTiePreferred_st pid cname trialId leftId rightId s))"
  by (simp add: resolveTiePreferred_st_def Let_def case_prod_beta untouched_refl
      untouched_draw_new_generator)

lemma champion_st_result: "fst (champion_st pid cname rows s) = champion_of pid cname rows"
  by (simp add: champion_st_def champion_of_def Let_def case_prod_beta
      resolveTiePreferred_st_result)

lemma untouched_champion_st: "untouched s (snd (champion_st pid cname rows s))"
  by (simp add: champion_st_def Let_def case_prod_beta untouched_refl
      untouched_resolveTiePreferred_st)

lemma arrays_resolveTiePreferred_st:
  "strings_at (snd (resolveTiePreferred_st pid cname trialId leftId rightId s)) = strings_at s \<and>
   rows_at (snd (resolveTiePreferred_st pid cname trialId leftId rightId s)) = rows_at s"
  by (simp add: resolveTiePreferred_st_def Let_def case_prod_beta draw_def new_generator_def)

lemma arrays_champion_st:
  "strings_at (snd (champion_st pid cname rows s)) = strings_at s \<and>
   rows_at (snd (champion_st pid cname rows s)) = rows_at s"
  by (simp add: champion_st_def Let_def case_prod_beta arrays_resolveTiePreferred_st)

lemma untouched_sorted_store: "untouched s (sorted_store pid cname history s)"
  by (simp add: untouched_def sorted_store_def)

lemma nextPair_st_unfold:
  assumes "\<not> (pid = [] \<or> length (strings_at s methodIds) < 2)"
  shows "nextPair_st pid cname methodIds history s =
     (let s2 = sorted_store pid cname history s; rows = rows_top s
      in if length (rows_at s2 rows) = 0 then
             (let (shuffled, s3) = stableShuffle_st methodIds (pid @ ''::'' @ cname) s2
              in (Some (strings_at s3 shuffled ! 0, strings_at s3 shuffled ! 1), s3))
           else
             (let (champion, s3) = champion_st pid cname (rows_at s2 rows) s2;
                  appeared = appeared_of (rows_at s3 rows);
                  unseen = filter (\<lambda>m. m \<notin> set appeared \<and> m \<noteq> champion)
                             (strings_at s3 methodIds)
              in if length unseen = 0 then (None, s3)
                 else
                   (let (rnd, s4) = new_generator (hash32
                          (pid @ ''::'' @ cname @ ''::'' @ string_of_nat (length appeared))) s3;
                        (k, s5) = draw rnd s4;
                        challenger = unseen ! floor_scaled k (length unseen)
                    in (Some (champion, challenger), s5))))"
proof -
  have "snd (new_rows (filter (\<lambda>r. participant_id r = Some pid \<and> component r = Some cname)
                   (rows_at s history)) s)
        \<lparr>rows_at := (rows_at (snd (new_rows (filter (\<lambda>r. participant_id r = Some pid \<and> component r = Some cname)
                   (rows_at s history)) s)))
           (rows_top s := sort_key trial_or_zero
              (rows_at (snd (new_rows (filter (\<lambda>r. participant_id r = Some pid \<and> component r = Some cname)
                   (rows_at s history)) s)) (rows_top s)))\<rparr> =
        sorted_store pid cname history s"
    by (simp add: new_rows_def sorted_store_def own_rows_def)
  then show ?thesis
    using assms unfolding nextPair_st_def
    by (simp only: if_False Let_def case_prod_beta new_rows_def fst_conv snd_conv) 
qed

lemma sorted_store_fields:
  "rows_at (sorted_store pid cname history s) (rows_top s) = own_rows pid cname (rows_at s history)"
  "strings_at (sorted_store pid cname history s) = strings_at s"
  by (simp_all add: sorted_store_def)

lemma nextPair_st_result:
  "fst (nextPair_st pid cname methodIds history s) =
     nextPair pid cname (strings_at s methodIds) (rows_at s history)"
proof (cases "pid = [] \<or> length (strings_at s methodIds) < 2")
  case True
  then show ?thesis
    by (auto simp: nextPair_st_def nextPair_def)
next
  case False
  let ?s2 = "sorted_store pid cname history s"
  let ?rows = "own_rows pid cname (rows_at s history)"
  show ?thesis
  proof (cases "?rows = []")
    case True
    have "fst (nextPair_st pid cname methodIds history s) =
          (let sh = stableShuffle_st methodIds (pid @ ''::'' @ cname) ?s2
           in Some (strings_at (snd sh) (fst sh) ! 0, strings_at (snd sh) (fst sh) ! 1))"
      unfolding nextPair_st_unfold [OF False]
      by (simp add: Let_def case_prod_beta sorted_store_fields True)
    also have "\<dots> = (let shuffled = stableShuffle (strings_at s methodIds) (pid @ ''::'' @ cname)
                     in Some (shuffled ! 0, shuffled ! 1))"
      by (simp only: Let_def stableShuffle_st_result sorted_store_fields)
    also have "\<dots> = nextPair pid cname (strings_at s methodIds) (rows_at s history)"
      using False True by (simp add: nextPair_def Let_def)
    finally show ?thesis .
  next
    case ne: False
    let ?c = "champion_st pid cname ?rows ?s2"
    have c: "fst ?c = champion_of pid cname ?rows"
      by (rule champion_st_result)
    have a: "strings_at (snd ?c) = strings_at s" "rows_at (snd ?c) (rows_top s) = ?rows"
      using arrays_champion_st [of pid cname ?rows ?s2] by (simp_all add: sorted_store_fields)
    have "fst (nextPair_st pid cname methodIds history s) =
          (if unseen_of pid cname (strings_at s methodIds) ?rows = [] then None
           else Some (champion_of pid cname ?rows,
                      unseen_of pid cname (strings_at s methodIds) ?rows !
                        drawn_index pid cname (strings_at s methodIds) ?rows))"
      unfolding nextPair_st_unfold [OF False]
      by (simp add: Let_def case_prod_beta sorted_store_fields ne c a unseen_of_def
          drawn_index_def draw_new_generator)
    also have "\<dots> = nextPair pid cname (strings_at s methodIds) (rows_at s history)"
      using False ne by (intro nextPair_steady [symmetric]) simp_all
    finally show ?thesis .
  qed
qed

lemma untouched_nextPair_st: "untouched s (snd (nextPair_st pid cname methodIds history s))"
proof (cases "pid = [] \<or> length (strings_at s methodIds) < 2")
  case True
  then show ?thesis
    by (auto simp: nextPair_st_def untouched_refl)
next
  case False
  let ?s2 = "sorted_store pid cname history s"
  let ?rows = "rows_at ?s2 (rows_top s)"
  have s2: "untouched s ?s2"
    by (rule untouched_sorted_store)
  show ?thesis
  proof (cases "length ?rows = 0")
    case True
    have "snd (nextPair_st pid cname methodIds history s) =
          snd (stableShuffle_st methodIds (pid @ ''::'' @ cname) ?s2)"
      unfolding nextPair_st_unfold [OF False]
      using True by (simp add: Let_def case_prod_beta)
    then show ?thesis
      using untouched_trans [OF s2 untouched_stableShuffle_st] by simp
  next
    case ne: False
    let ?s3 = "snd (champion_st pid cname ?rows ?s2)"
    have s3: "untouched s ?s3"
      using untouched_trans [OF s2 untouched_champion_st] .
    have "snd (nextPair_st pid cname methodIds history s) = ?s3 \<or>
          (\<exists>seed. snd (nextPair_st pid cname methodIds history s) =
             snd (draw (fst (new_generator seed ?s3)) (snd (new_generator seed ?s3))))"
      unfolding nextPair_st_unfold [OF False]
      using ne by (simp add: Let_def case_prod_beta) blast
    then show ?thesis
      using s3 untouched_trans [OF s3 untouched_draw_new_generator] by auto
  qed
qed

text \<open>
  Claim C2. Two calls with identical arguments return identical results, in whatever
  stores they run: \<open>resolveTiePreferred\<close> on the same participant, component, trial
  number and method ids; \<open>nextPair\<close> on the same participant and component and on
  arrays with the same contents. A call of \<open>nextPair\<close> leaves the two arrays it was
  given as they were, so the same call made again right after it returns the same result.
  Each result is the value of the function on the contents of the arguments.
\<close>

theorem calls_deterministic:
  "fst (resolveTiePreferred_st pid cname trialId leftId rightId s) =
     fst (resolveTiePreferred_st pid cname trialId leftId rightId s') \<and>
   (strings_at s methodIds = strings_at s' methodIds' \<and>
    rows_at s history = rows_at s' history' \<longrightarrow>
      fst (nextPair_st pid cname methodIds history s) =
        fst (nextPair_st pid cname methodIds' history' s')) \<and>
   (methodIds < strings_top s \<and> history < rows_top s \<longrightarrow>
      strings_at (snd (nextPair_st pid cname methodIds history s)) methodIds =
        strings_at s methodIds \<and>
      rows_at (snd (nextPair_st pid cname methodIds history s)) history = rows_at s history \<and>
      fst (nextPair_st pid cname methodIds history
             (snd (nextPair_st pid cname methodIds history s))) =
        fst (nextPair_st pid cname methodIds history s)) \<and>
   fst (resolveTiePreferred_st pid cname trialId leftId rightId s) =
     resolveTiePreferred pid cname trialId leftId rightId \<and>
   fst (nextPair_st pid cname methodIds history s) =
     nextPair pid cname (strings_at s methodIds) (rows_at s history)"
proof -
  have 1: "fst (resolveTiePreferred_st pid cname trialId leftId rightId s) =
     fst (resolveTiePreferred_st pid cname trialId leftId rightId s')"
    by (simp only: resolveTiePreferred_st_result)
  have 2: "strings_at s methodIds = strings_at s' methodIds' \<and>
    rows_at s history = rows_at s' history' \<longrightarrow>
      fst (nextPair_st pid cname methodIds history s) =
        fst (nextPair_st pid cname methodIds' history' s')"
    by (simp add: nextPair_st_result)
  have 3: "methodIds < strings_top s \<and> history < rows_top s \<longrightarrow>
      strings_at (snd (nextPair_st pid cname methodIds history s)) methodIds =
        strings_at s methodIds \<and>
      rows_at (snd (nextPair_st pid cname methodIds history s)) history = rows_at s history \<and>
      fst (nextPair_st pid cname methodIds history
             (snd (nextPair_st pid cname methodIds history s))) =
        fst (nextPair_st pid cname methodIds history s)"
  proof
    assume a: "methodIds < strings_top s \<and> history < rows_top s"
    let ?s1 = "snd (nextPair_st pid cname methodIds history s)"
    have "untouched s ?s1"
      by (rule untouched_nextPair_st)
    then have k: "strings_at ?s1 methodIds = strings_at s methodIds"
      "rows_at ?s1 history = rows_at s history"
      using a by (simp_all add: untouched_def)
    then show "strings_at ?s1 methodIds = strings_at s methodIds \<and>
      rows_at ?s1 history = rows_at s history \<and>
      fst (nextPair_st pid cname methodIds history ?s1) =
        fst (nextPair_st pid cname methodIds history s)"
      by (simp add: nextPair_st_result)
  qed
  have 4: "fst (resolveTiePreferred_st pid cname trialId leftId rightId s) =
     resolveTiePreferred pid cname trialId leftId rightId"
    by (rule resolveTiePreferred_st_result)
  have 5: "fst (nextPair_st pid cname methodIds history s) =
     nextPair pid cname (strings_at s methodIds) (rows_at s history)"
    by (rule nextPair_st_result)
  show ?thesis
    by (intro conjI; fact)
qed

theorem calls_deterministic_witness:
  "fst (nextPair_st ''P'' ''c'' 0 0 example_store) = fst (nextPair_st ''P'' ''c'' 3 2 other_store) \<and>
   fst (nextPair_st ''P'' ''c'' 0 0 (snd (nextPair_st ''P'' ''c'' 0 0 example_store))) =
     fst (nextPair_st ''P'' ''c'' 0 0 example_store) \<and>
   fst (nextPair_st ''P'' ''c'' 0 0 example_store) = Some (''A'', ''C'')"
proof -
  have c: "strings_at example_store 0 = strings_at other_store 3 \<and>
           rows_at example_store 0 = rows_at other_store 2"
    by (simp add: example_store_def other_store_def)
  have t: "0 < strings_top example_store \<and> 0 < rows_top example_store"
    by (simp add: example_store_def)
  have v: "strings_at example_store 0 = [''A'', ''B'', ''C'']" "rows_at example_store 0 = []"
    by (simp_all add: example_store_def)
  have 1: "fst (nextPair_st ''P'' ''c'' 0 0 example_store) =
           fst (nextPair_st ''P'' ''c'' 3 2 other_store)"
    using calls_deterministic [of "''P''" "''c''" 1 "''A''" "''B''" example_store other_store
        0 3 0 2] c by blast
  have 2: "fst (nextPair_st ''P'' ''c'' 0 0 (snd (nextPair_st ''P'' ''c'' 0 0 example_store))) =
     fst (nextPair_st ''P'' ''c'' 0 0 example_store)"
    using calls_deterministic [of "''P''" "''c''" 1 "''A''" "''B''" example_store other_store
        0 3 0 2] t by blast
  have "fst (nextPair_st ''P'' ''c'' 0 0 example_store) =
        nextPair ''P'' ''c'' (strings_at example_store 0) (rows_at example_store 0)"
    using calls_deterministic [of "''P''" "''c''" 1 "''A''" "''B''" example_store other_store
        0 3 0 2] by blast
  then have 3: "fst (nextPair_st ''P'' ''c'' 0 0 example_store) = Some (''A'', ''C'')"
    by (simp add: v nextPair_def own_rows_def shuffle_ABC_P_c)
  from 1 2 3 show ?thesis
    by simp
qed

end
